theory Spec2Isabelle
  imports Main "HOL-Library.Sublist"
begin

section \<open>Data model\<close>

text \<open>
  The values of a run-info dictionary: text, integers and booleans (floats are not
  modelled). Python compares and hashes \<open>True\<close> like \<open>1\<close> and \<open>False\<close> like \<open>0\<close>, so
  dictionary keys are compared after \<open>py_norm\<close>.
\<close>

datatype pyval = VStr string | VNum int | VBool bool

fun py_norm :: "pyval \<Rightarrow> pyval" where
  "py_norm (VBool b) = VNum (if b then 1 else 0)"
| "py_norm v = v"

fun truthy :: "pyval \<Rightarrow> bool" where
  "truthy (VStr s) = (s \<noteq> [])"
| "truthy (VNum n) = (n \<noteq> 0)"
| "truthy (VBool b) = b"

text \<open>
  A run-info dictionary as an association list in iteration order; \<open>run_info[prop]\<close> is
  \<open>map_of\<close>, a missing key is a \<open>KeyError\<close>.
\<close>

type_synonym run_info_dict = "(string \<times> pyval) list"

text \<open>\<open>Result = namedtuple("Result", ["run_info", "status"])\<close>\<close>

record Result =
  run_info :: run_info_dict
  status :: string

text \<open>What the harness hands to \<open>set_result\<close>: an object with \<open>status\<close> and \<open>default_expected\<close>.\<close>

record harness_result =
  hr_status :: string
  default_expected :: string

datatype error = KeyError | ValueError | AssertionError

text \<open>
  Modelled from the spec: the node classes of \<open>wptmanifest.node\<close> are not part of the
  source; the expression builder only constructs them. A binary or unary expression node
  holds its operator and its operands in the order the constructor is given them; a
  \<open>ConditionalNode\<close> holds the condition as child 0 and the value as child 1.
\<close>

datatype node =
    VariableNode string
  | StringNode string
  | NumberNode string
  | UnaryExpressionNode string node
  | BinaryExpressionNode string node node

datatype conditional_node = ConditionalNode node node

fun children0 :: "conditional_node \<Rightarrow> node" where
  "children0 (ConditionalNode c v) = c"

text \<open>The children of a test's AST node: key-value nodes for attributes, data nodes for subtests.\<close>

datatype child_node = KeyValueNode string | DataNode string

text \<open>
  Modelled from the spec: a \<open>ConditionalValue\<close> of \<open>wptmanifest.backends.conditional\<close>, a
  (predicate, status) pair whose predicate \<open>None\<close> is the unconditional entry. It is a
  mutable object shared by \<open>_data["expected"]\<close> and \<open>updated_expected\<close>, so the node keeps
  the objects in a heap and both lists hold addresses (indices into the heap).
\<close>

record cond_value =
  condition_node :: "node option"
  cv_value :: string

text \<open>
  A \<open>TestNode\<close>: \<open>data\<close> is \<open>self._data\<close>, \<open>node_children\<close> is \<open>self.node.children\<close>,
  \<open>root_modified\<close> is \<open>self.root.modified\<close>.
\<close>

record test_node =
  heap :: "cond_value list"
  data :: "string \<rightharpoonup> nat list"
  node_children :: "child_node list"
  updated_expected :: "(nat \<times> Result list) list"
  new_expected :: "Result list"
  default_status :: "string option"
  root_modified :: bool

section \<open>The external attribute store\<close>

text \<open>
  Modelled from the spec: evaluating a stored condition against a descriptor gives a
  boolean; the evaluator \<open>ev\<close> of predicates is the external expression language, and a
  condition without predicate is always true.
\<close>

definition cond_call :: "(node \<Rightarrow> run_info_dict \<Rightarrow> bool) \<Rightarrow> cond_value \<Rightarrow> run_info_dict \<Rightarrow> bool" where
  "cond_call ev cv ri = (case condition_node cv of None \<Rightarrow> True | Some e \<Rightarrow> ev e ri)"

text \<open>
  Modelled from the spec: \<open>ManifestItem.get(key)\<close> without run info gives the value of the
  node's unconditional entry if one is stored, and raises \<open>KeyError\<close> otherwise.
\<close>

definition get_attr :: "test_node \<Rightarrow> string \<Rightarrow> error + string" where
  "get_attr st key =
     (case data st key of
        None \<Rightarrow> Inl KeyError
      | Some es \<Rightarrow>
          (case find (\<lambda>a. condition_node (heap st ! a) = None) es of
             None \<Rightarrow> Inl KeyError
           | Some a \<Rightarrow> Inr (cv_value (heap st ! a))))"

text \<open>
  Modelled from the spec: \<open>ManifestItem.set(key, value, condition)\<close>. Predicates compare by
  identity, so a freshly built predicate equals no stored one and its entry is appended
  (the caller reads the new entry as \<open>_data[key][-1]\<close>); an unconditional write
  overwrites the stored unconditional entry if there is one. A new attribute gets its
  key-value node.
\<close>

definition set_attr :: "test_node \<Rightarrow> string \<Rightarrow> string \<Rightarrow> node option \<Rightarrow> test_node" where
  "set_attr st key v condition =
     (let es = (case data st key of None \<Rightarrow> [] | Some es \<Rightarrow> es);
          existing = (if condition = None
                      then find (\<lambda>a. condition_node (heap st ! a) = None) es else None)
      in case existing of
           Some a \<Rightarrow> st\<lparr>heap := (heap st)[a := (heap st ! a)\<lparr>cv_value := v\<rparr>]\<rparr>
         | None \<Rightarrow>
             st\<lparr>heap := heap st @ [\<lparr>condition_node = condition, cv_value = v\<rparr>],
                data := (data st)(key \<mapsto> es @ [length (heap st)]),
                node_children :=
                  (if KeyValueNode key \<in> set (node_children st) then node_children st
                   else node_children st @ [KeyValueNode key])\<rparr>)"

text \<open>
  Modelled from the spec: \<open>ManifestItem.remove_value(key, value)\<close> takes the entry out of
  \<open>_data[key]\<close> as \<open>list.remove\<close> does: the first occurrence, \<open>ValueError\<close> when there is
  none, \<open>KeyError\<close> when the key is absent. The list stays, even empty.
\<close>

definition remove_value :: "test_node \<Rightarrow> string \<Rightarrow> nat \<Rightarrow> error + test_node" where
  "remove_value st key a =
     (case data st key of
        None \<Rightarrow> Inl KeyError
      | Some es \<Rightarrow>
          if a \<in> set es then Inr (st\<lparr>data := (data st)(key \<mapsto> remove1 a es)\<rparr>)
          else Inl ValueError)"

section \<open>The condition synthesizer\<close>

subsection \<open>\<open>make_expr\<close>\<close>

function nat_digits :: "nat \<Rightarrow> string" where
  "nat_digits n =
     (if n < 10 then [char_of (48 + n)]
      else nat_digits (n div 10) @ [char_of (48 + n mod 10)])"
  by pat_completeness auto
termination
  by (relation "measure id") auto

text \<open>\<open>unicode(value)\<close>\<close>

fun unicode :: "pyval \<Rightarrow> string" where
  "unicode (VStr s) = s"
| "unicode (VNum n) = (if n < 0 then CHR ''-'' # nat_digits (nat (- n)) else nat_digits (nat n))"
| "unicode (VBool b) = (if b then ''True'' else ''False'')"

text \<open>\<open>type(value) in (int, float, long)\<close>: a \<open>bool\<close> is not of these types.\<close>

fun is_number_type :: "pyval \<Rightarrow> bool" where
  "is_number_type (VNum n) = True"
| "is_number_type v = False"

definition no_value_props :: "string set" where
  "no_value_props = {''debug''}"

text \<open>The body of the loop over \<open>prop_set\<close>: the expression for one (property, value) pair.\<close>

definition prop_expr :: "string \<times> pyval \<Rightarrow> node" where
  "prop_expr pv =
     (let prop = fst pv; v = snd pv in
      if prop \<notin> no_value_props then
        BinaryExpressionNode ''=='' (VariableNode prop)
          ((if is_number_type v then NumberNode else StringNode) (unicode v))
      else if truthy v then VariableNode prop
      else UnaryExpressionNode ''not'' (VariableNode prop))"

text \<open>
  The chaining of the expressions with \<open>and\<close>: from the last expression backwards, each
  earlier expression becomes the left operand.
\<close>

definition and_chain :: "node list \<Rightarrow> node" where
  "and_chain expressions =
     (if length expressions > 1
      then foldr (\<lambda>curr prev. BinaryExpressionNode ''and'' curr prev)
             (butlast expressions) (last expressions)
      else hd expressions)"

definition make_expr :: "(string \<times> pyval) list \<Rightarrow> string \<Rightarrow> error + conditional_node" where
  "make_expr prop_set st =
     (if \<not> length prop_set > 0 then Inl AssertionError
      else Inr (ConditionalNode (and_chain (map prop_expr prop_set)) (StringNode st)))"

subsection \<open>\<open>group_conditionals\<close>\<close>

text \<open>A dictionary key \<open>(prop_name, prop_value)\<close>, up to Python's equality of values.\<close>

definition dict_key :: "string \<times> pyval \<Rightarrow> string \<times> pyval" where
  "dict_key kv = (fst kv, py_norm (snd kv))"

text \<open>\<open>by_property[key].add(status)\<close> on a \<open>defaultdict(set)\<close>, kept in insertion order.\<close>

fun by_property_add :: "'k \<Rightarrow> 's \<Rightarrow> ('k \<times> 's set) list \<Rightarrow> ('k \<times> 's set) list" where
  "by_property_add k s [] = [(k, {s})]"
| "by_property_add k s (e # bp) =
     (if fst e = k then (fst e, insert s (snd e)) # bp else e # by_property_add k s bp)"

definition by_property_of :: "Result list \<Rightarrow> ((string \<times> pyval) \<times> string set) list" where
  "by_property_of vals =
     fold (\<lambda>result bp.
             fold (\<lambda>kv. by_property_add (dict_key kv) (status result)) (run_info result) bp)
       vals []"

text \<open>The removal of the properties that are "common for all the values".\<close>

definition prune_common ::
  "Result list \<Rightarrow> ((string \<times> pyval) \<times> string set) list
     \<Rightarrow> ((string \<times> pyval) \<times> string set) list" where
  "prune_common vals bp =
     (if length vals > 1 then filter (\<lambda>e. \<not> card (snd e) = length vals) bp else bp)"

definition prop_order :: "string list" where
  "prop_order = [''debug'', ''os'', ''version'', ''processor'', ''bits'']"

definition include_props_of :: "((string \<times> pyval) \<times> string set) list \<Rightarrow> string list" where
  "include_props_of bp = filter (\<lambda>prop. prop \<in> set (map (\<lambda>item. fst (fst item)) bp)) prop_order"

text \<open>\<open>tuple((prop, run_info[prop]) for prop in include_props)\<close>\<close>

fun prop_set_of :: "run_info_dict \<Rightarrow> string list \<Rightarrow> error + (string \<times> pyval) list" where
  "prop_set_of ri [] = Inr []"
| "prop_set_of ri (prop # props) =
     (case map_of ri prop of
        None \<Rightarrow> Inl KeyError
      | Some v \<Rightarrow>
          (case prop_set_of ri props of
             Inl e \<Rightarrow> Inl e
           | Inr ps \<Rightarrow> Inr ((prop, v) # ps)))"

text \<open>
  The loop that fills \<open>conditions\<close>, a dictionary from signatures to (expression, status),
  kept in insertion order (Python leaves the order of \<open>conditions.values()\<close> open).
\<close>

fun conditions_loop ::
  "string list \<Rightarrow> Result list \<Rightarrow> ((string \<times> pyval) list \<times> conditional_node \<times> string) list
     \<Rightarrow> error + ((string \<times> pyval) list \<times> conditional_node \<times> string) list" where
  "conditions_loop inc [] conds = Inr conds"
| "conditions_loop inc (r # rs) conds =
     (case prop_set_of (run_info r) inc of
        Inl e \<Rightarrow> Inl e
      | Inr ps \<Rightarrow>
          if map dict_key ps \<in> set (map fst conds) then conditions_loop inc rs conds
          else (case make_expr ps (status r) of
                  Inl e \<Rightarrow> Inl e
                | Inr expr \<Rightarrow>
                    conditions_loop inc rs (conds @ [(map dict_key ps, expr, status r)])))"

definition include_props :: "Result list \<Rightarrow> string list" where
  "include_props vals = include_props_of (prune_common vals (by_property_of vals))"

definition group_conditionals :: "Result list \<Rightarrow> error + (conditional_node \<times> string) list" where
  "group_conditionals vals =
     (case conditions_loop (include_props vals) vals [] of
        Inl e \<Rightarrow> Inl e
      | Inr conds \<Rightarrow> Inr (map snd conds))"

section \<open>Recording a result\<close>

text \<open>
  The loop of \<open>set_result\<close> over \<open>updated_expected\<close>: at the first condition that is true
  for the run info the result is appended to its list and the loop breaks. It gives the
  new list and whether the status differs from the value of that condition, or \<open>None\<close>
  when the loop ends without \<open>found\<close>.
\<close>

fun record_match ::
  "(node \<Rightarrow> run_info_dict \<Rightarrow> bool) \<Rightarrow> cond_value list \<Rightarrow> run_info_dict \<Rightarrow> string
     \<Rightarrow> (nat \<times> Result list) list \<Rightarrow> ((nat \<times> Result list) list \<times> bool) option" where
  "record_match ev h ri s [] = None"
| "record_match ev h ri s (e # ue) =
     (if cond_call ev (h ! fst e) ri
      then Some ((fst e, snd e @ [\<lparr>run_info = ri, status = s\<rparr>]) # ue, s \<noteq> cv_value (h ! fst e))
      else (case record_match ev h ri s ue of
              None \<Rightarrow> None
            | Some (ue', differs) \<Rightarrow> Some (e # ue', differs)))"

definition set_result ::
  "(node \<Rightarrow> run_info_dict \<Rightarrow> bool) \<Rightarrow> test_node \<Rightarrow> run_info_dict \<Rightarrow> harness_result
     \<Rightarrow> error + test_node" where
  "set_result ev st ri res =
     (if default_status st \<noteq> None \<and> default_status st \<noteq> Some (default_expected res)
      then Inl AssertionError
      else
        let st1 = (if default_status st \<noteq> None then st
                   else st\<lparr>default_status := Some (default_expected res)\<rparr>)
        in case record_match ev (heap st1) ri (hr_status res) (updated_expected st1) of
             Some (ue', differs) \<Rightarrow>
               Inr (st1\<lparr>updated_expected := ue',
                        root_modified := (if differs then True else root_modified st1)\<rparr>)
           | None \<Rightarrow>
               Inr (st1\<lparr>new_expected :=
                          new_expected st1 @ [\<lparr>run_info = ri, status = hr_status res\<rparr>],
                        root_modified := True\<rparr>))"

section \<open>Coalescing\<close>

text \<open>\<open>all(results[0].status == result.status for result in results)\<close>\<close>

definition all_same :: "Result list \<Rightarrow> bool" where
  "all_same results = list_all (\<lambda>result. status (hd results) = status result) results"

definition unconditional_status :: "test_node \<Rightarrow> string option" where
  "unconditional_status st =
     (case get_attr st ''expected'' of Inr v \<Rightarrow> Some v | Inl e \<Rightarrow> default_status st)"

text \<open>The body of the loop over \<open>updated_expected\<close>, for one tracked condition.\<close>

definition coalesce_entry :: "string option \<Rightarrow> nat \<times> Result list \<Rightarrow> test_node \<Rightarrow> error + test_node" where
  "coalesce_entry us e st =
     (let a = fst e; results = snd e in
      if results = [] then Inr st
      else if all_same results then
        (if Some (status (hd results)) = us \<and> condition_node (heap st ! a) \<noteq> None
         then remove_value st ''expected'' a
         else Inr (st\<lparr>heap := (heap st)[a := (heap st ! a)\<lparr>cv_value := status (hd results)\<rparr>]\<rparr>))
      else if condition_node (heap st ! a) \<noteq> None then
        (case remove_value st ''expected'' a of
           Inl err \<Rightarrow> Inl err
         | Inr st' \<Rightarrow> Inr (st'\<lparr>new_expected := new_expected st' @ results\<rparr>))
      else
        Inr (st\<lparr>new_expected :=
                  new_expected st @ filter (\<lambda>result. Some (status result) \<noteq> us) results\<rparr>))"

fun coalesce_conditions ::
  "string option \<Rightarrow> (nat \<times> Result list) list \<Rightarrow> test_node \<Rightarrow> error + test_node" where
  "coalesce_conditions us [] st = Inr st"
| "coalesce_conditions us (e # ue) st =
     (case coalesce_entry us e st of
        Inl err \<Rightarrow> Inl err
      | Inr st' \<Rightarrow> coalesce_conditions us ue st')"

text \<open>The handling of \<open>new_expected\<close> after the loop.\<close>

definition set_synthesized :: "string option \<Rightarrow> conditional_node \<times> string \<Rightarrow> test_node \<Rightarrow> test_node" where
  "set_synthesized us c st =
     (if Some (snd c) \<noteq> us then set_attr st ''expected'' (snd c) (Some (children0 (fst c)))
      else st)"

definition coalesce_new_expected :: "string option \<Rightarrow> test_node \<Rightarrow> error + test_node" where
  "coalesce_new_expected us st =
     (if new_expected st = [] then Inr st
      else if all_same (new_expected st) \<and> updated_expected st = [] then
        (if Some (status (hd (new_expected st))) \<noteq> default_status st
         then Inr (set_attr st ''expected'' (status (hd (new_expected st))) None)
         else Inr st)
      else
        (case group_conditionals (new_expected st) of
           Inl err \<Rightarrow> Inl err
         | Inr conds \<Rightarrow> Inr (fold (set_synthesized us) conds st)))"

text \<open>Everything of \<open>coalesce_expected\<close> before its two closing \<open>if\<close> statements.\<close>

definition coalesce_updates :: "test_node \<Rightarrow> error + test_node" where
  "coalesce_updates st =
     (let us = unconditional_status st in
      case coalesce_conditions us (updated_expected st) st of
        Inl err \<Rightarrow> Inl err
      | Inr st1 \<Rightarrow> coalesce_new_expected us st1)"

text \<open>The first closing \<open>if\<close>: a last entry that is unconditional and has the default status is removed.\<close>

definition drop_default :: "test_node \<Rightarrow> error + test_node" where
  "drop_default st =
     (case data st ''expected'' of
        None \<Rightarrow> Inr st
      | Some es \<Rightarrow>
          if length es > 0 \<and> condition_node (heap st ! last es) = None
             \<and> Some (cv_value (heap st ! last es)) = default_status st
          then remove_value st ''expected'' (last es)
          else Inr st)"

text \<open>The second closing \<open>if\<close>: the first key-value child named \<open>expected\<close> is removed from the AST node.\<close>

definition remove_expected_node :: "test_node \<Rightarrow> test_node" where
  "remove_expected_node st =
     (case data st ''expected'' of
        None \<Rightarrow> st
      | Some es \<Rightarrow>
          if length es = 0
          then st\<lparr>node_children := remove1 (KeyValueNode ''expected'') (node_children st)\<rparr>
          else st)"

definition coalesce_expected :: "test_node \<Rightarrow> error + test_node" where
  "coalesce_expected st =
     (case coalesce_updates st of
        Inl err \<Rightarrow> Inl err
      | Inr st2 \<Rightarrow>
          (case drop_default st2 of
             Inl err \<Rightarrow> Inl err
           | Inr st3 \<Rightarrow> Inr (remove_expected_node st3)))"

section \<open>Notions used in the statements\<close>

text \<open>The stored entries of the \<open>expected\<close> attribute, \<open>self._data["expected"]\<close>, as addresses.\<close>

definition entries :: "test_node \<Rightarrow> nat list" where
  "entries st = (case data st ''expected'' of None \<Rightarrow> [] | Some es \<Rightarrow> es)"

text \<open>The set stored under a key of a \<open>defaultdict(set)\<close>: empty for a key never added.\<close>

definition lookup_set :: "('k \<times> 'v set) list \<Rightarrow> 'k \<Rightarrow> 'v set" where
  "lookup_set bp k = (case map_of bp k of None \<Rightarrow> {} | Some ss \<Rightarrow> ss)"

text \<open>
  The statuses of a candidate discriminator in the words of the specification: the distinct
  statuses among exactly the results whose descriptor binds that property to that value.
\<close>

definition statuses_of :: "Result list \<Rightarrow> string \<times> pyval \<Rightarrow> string set" where
  "statuses_of vals k =
     set (map status (filter (\<lambda>r. k \<in> set (map dict_key (run_info r))) vals))"

text \<open>The loop that fills \<open>by_property\<close>, started from any dictionary.\<close>

definition by_property_from ::
  "Result list \<Rightarrow> ((string \<times> pyval) \<times> string set) list \<Rightarrow> ((string \<times> pyval) \<times> string set) list" where
  "by_property_from vals bp0 =
     fold (\<lambda>result bp.
             fold (\<lambda>kv. by_property_add (dict_key kv) (status result)) (run_info result) bp)
       vals bp0"

text \<open>The variables an expression tests, from left to right.\<close>

fun node_vars :: "node \<Rightarrow> string list" where
  "node_vars (VariableNode v) = [v]"
| "node_vars (StringNode s) = []"
| "node_vars (NumberNode s) = []"
| "node_vars (UnaryExpressionNode op operand) = node_vars operand"
| "node_vars (BinaryExpressionNode op operand_0 operand_1) = node_vars operand_0 @ node_vars operand_1"

subsection \<open>Example data\<close>

text \<open>
  Modelled from the spec: a small evaluator of predicates for the examples (a variable or
  its negation, an equality test of a variable with a literal, conjunction); the theorems
  hold for every evaluator.
\<close>

fun literal_text :: "node \<Rightarrow> string" where
  "literal_text (StringNode s) = s"
| "literal_text (NumberNode s) = s"
| "literal_text n = []"

fun ex_ev :: "node \<Rightarrow> run_info_dict \<Rightarrow> bool" where
  "ex_ev (VariableNode v) ri = (case map_of ri v of None \<Rightarrow> False | Some x \<Rightarrow> truthy x)"
| "ex_ev (StringNode s) ri = (s \<noteq> [])"
| "ex_ev (NumberNode s) ri = (s \<noteq> ''0'')"
| "ex_ev (UnaryExpressionNode op operand) ri = (\<not> ex_ev operand ri)"
| "ex_ev (BinaryExpressionNode op operand_0 operand_1) ri =
     (if op = ''and'' then ex_ev operand_0 ri \<and> ex_ev operand_1 ri
      else (case operand_0 of
              VariableNode v \<Rightarrow>
                (case map_of ri v of None \<Rightarrow> False | Some x \<Rightarrow> unicode x = literal_text operand_1)
            | _ \<Rightarrow> False))"

definition os_is :: "string \<Rightarrow> node" where
  "os_is s = BinaryExpressionNode ''=='' (VariableNode ''os'') (StringNode s)"

definition ex_linux :: run_info_dict where
  "ex_linux = [(''os'', VStr ''linux''), (''debug'', VBool False), (''bits'', VNum 64)]"

definition ex_win :: run_info_dict where
  "ex_win = [(''os'', VStr ''win''), (''debug'', VBool False), (''bits'', VNum 64)]"

definition ex_mac :: run_info_dict where
  "ex_mac = [(''os'', VStr ''mac''), (''debug'', VBool False), (''bits'', VNum 64)]"

definition ex_two_results :: "Result list" where
  "ex_two_results = [\<lparr>run_info = ex_linux, status = ''PASS''\<rparr>, \<lparr>run_info = ex_win, status = ''FAIL''\<rparr>]"

definition ex_single_result :: "Result list" where
  "ex_single_result = [\<lparr>run_info = [(''os'', VStr ''linux'')], status = ''PASS''\<rparr>]"

definition ex_pass :: harness_result where
  "ex_pass = \<lparr>hr_status = ''PASS'', default_expected = ''PASS''\<rparr>"

definition ex_ok :: harness_result where
  "ex_ok = \<lparr>hr_status = ''OK'', default_expected = ''OK''\<rparr>"

text \<open>
  Two results that differ in three properties, listed in another order than the priority
  order, and the predicates expected for them.
\<close>

definition ex_three_props :: "Result list" where
  "ex_three_props =
     [\<lparr>run_info = [(''os'', VStr ''linux''), (''bits'', VNum 64), (''debug'', VBool False)],
       status = ''PASS''\<rparr>,
      \<lparr>run_info = [(''os'', VStr ''win''), (''bits'', VNum 32), (''debug'', VBool True)],
       status = ''FAIL''\<rparr>]"

definition ex_linux_pred :: node where
  "ex_linux_pred =
     BinaryExpressionNode ''and'' (UnaryExpressionNode ''not'' (VariableNode ''debug''))
       (BinaryExpressionNode ''and''
          (BinaryExpressionNode ''=='' (VariableNode ''os'') (StringNode ''linux''))
          (BinaryExpressionNode ''=='' (VariableNode ''bits'') (NumberNode ''64'')))"

definition ex_win_pred :: node where
  "ex_win_pred =
     BinaryExpressionNode ''and'' (VariableNode ''debug'')
       (BinaryExpressionNode ''and''
          (BinaryExpressionNode ''=='' (VariableNode ''os'') (StringNode ''win''))
          (BinaryExpressionNode ''=='' (VariableNode ''bits'') (NumberNode ''32'')))"

text \<open>
  A test loaded from a file whose \<open>expected\<close> attribute has two conditional entries and a
  default, before any result is recorded.
\<close>

definition ex_node :: test_node where
  "ex_node = \<lparr>heap = [\<lparr>condition_node = Some (os_is ''linux''), cv_value = ''FAIL''\<rparr>,
                       \<lparr>condition_node = Some (os_is ''mac''), cv_value = ''TIMEOUT''\<rparr>,
                       \<lparr>condition_node = None, cv_value = ''PASS''\<rparr>],
              data = [''expected'' \<mapsto> [0, 1, 2]],
              node_children = [KeyValueNode ''expected''],
              updated_expected = [(0, []), (1, []), (2, [])],
              new_expected = [],
              default_status = None,
              root_modified = False\<rparr>"

subsection \<open>Notions for the coalescing loop\<close>

text \<open>
  The representation invariant of a node: the stored entries are different objects, so
  are the tracked conditions, and every address points into the heap.
\<close>

definition wf_node :: "test_node \<Rightarrow> bool" where
  "wf_node st =
     (distinct (entries st) \<and> distinct (map fst (updated_expected st))
      \<and> list_all (\<lambda>a. a < length (heap st)) (entries st)
      \<and> list_all (\<lambda>e. fst e < length (heap st)) (updated_expected st))"

text \<open>
  The branches of the loop body, as conditions on a tracked condition and its results:
  the entry is removed from the stored attribute; its stored status is overwritten;
  the results that are moved to the unplaced evidence.
\<close>

definition entry_dropped :: "string option \<Rightarrow> cond_value list \<Rightarrow> nat \<times> Result list \<Rightarrow> bool" where
  "entry_dropped us h e =
     (snd e \<noteq> [] \<and> condition_node (h ! fst e) \<noteq> None
      \<and> (if all_same (snd e) then Some (status (hd (snd e))) = us else True))"

definition entry_updated :: "string option \<Rightarrow> cond_value list \<Rightarrow> nat \<times> Result list \<Rightarrow> bool" where
  "entry_updated us h e =
     (snd e \<noteq> [] \<and> all_same (snd e)
      \<and> \<not> (Some (status (hd (snd e))) = us \<and> condition_node (h ! fst e) \<noteq> None))"

definition entry_moved :: "string option \<Rightarrow> cond_value list \<Rightarrow> nat \<times> Result list \<Rightarrow> Result list" where
  "entry_moved us h e =
     (if snd e = [] \<or> all_same (snd e) then []
      else if condition_node (h ! fst e) \<noteq> None then snd e
      else filter (\<lambda>result. Some (status result) \<noteq> us) (snd e))"

text \<open>The test of the first closing \<open>if\<close> of \<open>coalesce_expected\<close>.\<close>

definition last_is_default :: "test_node \<Rightarrow> bool" where
  "last_is_default st =
     (entries st \<noteq> [] \<and> condition_node (heap st ! last (entries st)) = None
      \<and> Some (cv_value (heap st ! last (entries st))) = default_status st)"

text \<open>
  Settled evidence: a well-formed node with at most one unconditional entry and different
  children, in which no tracked condition has disagreeing results.
\<close>

definition settled :: "test_node \<Rightarrow> bool" where
  "settled st =
     (wf_node st
      \<and> length (filter (\<lambda>a. condition_node (heap st ! a) = None) (entries st)) \<le> 1
      \<and> distinct (node_children st)
      \<and> list_all (\<lambda>e. snd e = [] \<or> all_same (snd e)) (updated_expected st))"

text \<open>
  The unplaced evidence adds no synthesized entry when \<open>us\<close> is the unconditional status:
  there is none, or it goes to the unconditional override (no tracked condition, one
  status), or the synthesizer returns and every status it returns is \<open>us\<close>.
\<close>

definition pool_quiet :: "string option \<Rightarrow> test_node \<Rightarrow> bool" where
  "pool_quiet us st =
     (new_expected st = [] \<or> (updated_expected st = [] \<and> all_same (new_expected st))
      \<or> (case group_conditionals (new_expected st) of
            Inl err \<Rightarrow> False
          | Inr conds \<Rightarrow> list_all (\<lambda>c. Some (snd c) = us) conds))"

text \<open>
  No tracked condition that has a predicate has matched results on the status \<open>us\<close>: the
  loop of \<open>coalesce_expected\<close> run with \<open>us\<close> as unconditional status removes no entry of
  a node with settled evidence.
\<close>

definition not_redundant :: "string option \<Rightarrow> test_node \<Rightarrow> bool" where
  "not_redundant us st =
     list_all (\<lambda>e. snd e = [] \<or> condition_node (heap st ! fst e) = None
                  \<or> Some (status (hd (snd e))) \<noteq> us) (updated_expected st)"

subsection \<open>Example nodes\<close>

definition only_os :: "string \<Rightarrow> run_info_dict" where
  "only_os s = [(''os'', VStr s)]"

text \<open>
  A test with \<open>expected: FAIL\<close> and default status \<open>PASS\<close> that passed on linux.
\<close>

definition fixed_node :: test_node where
  "fixed_node = \<lparr>heap = [\<lparr>condition_node = None, cv_value = ''FAIL''\<rparr>],
              data = [''expected'' \<mapsto> [0]],
              node_children = [KeyValueNode ''expected''],
              updated_expected = [(0, [\<lparr>run_info = only_os ''linux'', status = ''PASS''\<rparr>])],
              new_expected = [],
              default_status = Some ''PASS'',
              root_modified = True\<rparr>"

text \<open>
  A test with \<open>FAIL\<close> on linux, \<open>TIMEOUT\<close> on mac and the default \<open>PASS\<close> stored, that ran on
  linux only and passed.
\<close>

definition partly_run_node :: test_node where
  "partly_run_node = \<lparr>heap = [\<lparr>condition_node = Some (os_is ''linux''), cv_value = ''FAIL''\<rparr>,
                       \<lparr>condition_node = Some (os_is ''mac''), cv_value = ''TIMEOUT''\<rparr>,
                       \<lparr>condition_node = None, cv_value = ''PASS''\<rparr>],
              data = [''expected'' \<mapsto> [0, 1, 2]],
              node_children = [KeyValueNode ''expected''],
              updated_expected = [(0, [\<lparr>run_info = only_os ''linux'', status = ''PASS''\<rparr>]), (1, []), (2, [])],
              new_expected = [],
              default_status = Some ''PASS'',
              root_modified = True\<rparr>"

text \<open>
  A test with \<open>FAIL\<close> on linux stored, that passed on linux and timed out on mac.
\<close>

definition moved_node :: test_node where
  "moved_node = \<lparr>heap = [\<lparr>condition_node = Some (os_is ''linux''), cv_value = ''FAIL''\<rparr>],
              data = [''expected'' \<mapsto> [0]],
              node_children = [KeyValueNode ''expected''],
              updated_expected = [(0, [\<lparr>run_info = only_os ''linux'', status = ''PASS''\<rparr>])],
              new_expected = [\<lparr>run_info = only_os ''mac'', status = ''TIMEOUT''\<rparr>],
              default_status = Some ''PASS'',
              root_modified = True\<rparr>"

text \<open>
  A test with \<open>expected: FAIL\<close> that timed out on linux and failed on windows.
\<close>

definition mixed_node :: test_node where
  "mixed_node = \<lparr>heap = [\<lparr>condition_node = None, cv_value = ''FAIL''\<rparr>],
              data = [''expected'' \<mapsto> [0]],
              node_children = [KeyValueNode ''expected''],
              updated_expected = [(0, [\<lparr>run_info = only_os ''linux'', status = ''TIMEOUT''\<rparr>,
                                       \<lparr>run_info = only_os ''win'', status = ''FAIL''\<rparr>])],
              new_expected = [],
              default_status = Some ''PASS'',
              root_modified = True\<rparr>"

text \<open>A new test without stored expectation that timed out in every run.\<close>

definition new_node :: test_node where
  "new_node = \<lparr>heap = [],
              data = Map.empty,
              node_children = [],
              updated_expected = [],
              new_expected = [\<lparr>run_info = only_os ''linux'', status = ''TIMEOUT''\<rparr>,
                              \<lparr>run_info = only_os ''mac'', status = ''TIMEOUT''\<rparr>],
              default_status = Some ''PASS'',
              root_modified = True\<rparr>"

text \<open>A test with \<open>FAIL\<close> on linux stored, that timed out on linux.\<close>

definition changed_node :: test_node where
  "changed_node = \<lparr>heap = [\<lparr>condition_node = Some (os_is ''linux''), cv_value = ''FAIL''\<rparr>],
              data = [''expected'' \<mapsto> [0]],
              node_children = [KeyValueNode ''expected''],
              updated_expected = [(0, [\<lparr>run_info = only_os ''linux'', status = ''TIMEOUT''\<rparr>])],
              new_expected = [],
              default_status = Some ''PASS'',
              root_modified = True\<rparr>"

text \<open>A test with \<open>FAIL\<close> on linux and the default \<open>PASS\<close> stored, without any result.\<close>

definition untested_node :: test_node where
  "untested_node = \<lparr>heap = [\<lparr>condition_node = Some (os_is ''linux''), cv_value = ''FAIL''\<rparr>,
                       \<lparr>condition_node = None, cv_value = ''PASS''\<rparr>],
              data = [''expected'' \<mapsto> [0, 1]],
              node_children = [KeyValueNode ''expected''],
              updated_expected = [(0, []), (1, [])],
              new_expected = [],
              default_status = Some ''PASS'',
              root_modified = False\<rparr>"

text \<open>The node \<open>mixed_node\<close> after one and after two calls of \<open>coalesce_expected\<close>.\<close>

definition mixed_once :: test_node where
  "mixed_once = mixed_node\<lparr>
       heap := [\<lparr>condition_node = None, cv_value = ''FAIL''\<rparr>,
                \<lparr>condition_node = Some (os_is ''linux''), cv_value = ''TIMEOUT''\<rparr>],
       data := [''expected'' \<mapsto> [0, 1]],
       new_expected := [\<lparr>run_info = only_os ''linux'', status = ''TIMEOUT''\<rparr>]\<rparr>"

definition mixed_twice :: test_node where
  "mixed_twice = mixed_node\<lparr>
       heap := [\<lparr>condition_node = None, cv_value = ''FAIL''\<rparr>,
                \<lparr>condition_node = Some (os_is ''linux''), cv_value = ''TIMEOUT''\<rparr>,
                \<lparr>condition_node = Some (os_is ''linux''), cv_value = ''TIMEOUT''\<rparr>],
       data := [''expected'' \<mapsto> [0, 1, 2]],
       new_expected := [\<lparr>run_info = only_os ''linux'', status = ''TIMEOUT''\<rparr>,
                        \<lparr>run_info = only_os ''linux'', status = ''TIMEOUT''\<rparr>]\<rparr>"

text \<open>The nodes \<open>new_node\<close> and \<open>moved_node\<close> after \<open>coalesce_expected\<close>.\<close>

definition new_node_after :: test_node where
  "new_node_after = new_node\<lparr>heap := [\<lparr>condition_node = None, cv_value = ''TIMEOUT''\<rparr>],
                             data := [''expected'' \<mapsto> [0]],
                             node_children := [KeyValueNode ''expected'']\<rparr>"

definition moved_node_after :: test_node where
  "moved_node_after = moved_node\<lparr>
       heap := [\<lparr>condition_node = Some (os_is ''linux''), cv_value = ''FAIL''\<rparr>,
                \<lparr>condition_node = Some (os_is ''mac''), cv_value = ''TIMEOUT''\<rparr>],
       data := [''expected'' \<mapsto> [1]]\<rparr>"

text \<open>The nodes \<open>changed_node\<close>, \<open>fixed_node\<close> and \<open>untested_node\<close> after \<open>coalesce_expected\<close>.\<close>

definition changed_after :: test_node where
  "changed_after = changed_node\<lparr>
       heap := [\<lparr>condition_node = Some (os_is ''linux''), cv_value = ''TIMEOUT''\<rparr>]\<rparr>"

definition fixed_after :: test_node where
  "fixed_after = fixed_node\<lparr>heap := [\<lparr>condition_node = None, cv_value = ''PASS''\<rparr>],
                            data := [''expected'' \<mapsto> []], node_children := []\<rparr>"

text \<open>
  A test with \<open>FAIL\<close> on linux stored, that failed on linux and passed on mac: nothing
  changes.
\<close>

definition usual_node :: test_node where
  "usual_node = \<lparr>heap = [\<lparr>condition_node = Some (os_is ''linux''), cv_value = ''FAIL''\<rparr>],
              data = [''expected'' \<mapsto> [0]],
              node_children = [KeyValueNode ''expected''],
              updated_expected = [(0, [\<lparr>run_info = only_os ''linux'', status = ''FAIL''\<rparr>])],
              new_expected = [\<lparr>run_info = only_os ''mac'', status = ''PASS''\<rparr>],
              default_status = Some ''PASS'',
              root_modified = False\<rparr>"

definition untested_after :: test_node where
  "untested_after = untested_node\<lparr>data := [''expected'' \<mapsto> [0]]\<rparr>"

text \<open>
  A test with \<open>FAIL\<close> on linux and \<open>FAIL\<close> as stored default, that timed out on linux and
  on windows; the node after one and after two calls of \<open>coalesce_expected\<close>.
\<close>

definition retimed_node :: test_node where
  "retimed_node = \<lparr>heap = [\<lparr>condition_node = Some (os_is ''linux''), cv_value = ''FAIL''\<rparr>,
                           \<lparr>condition_node = None, cv_value = ''FAIL''\<rparr>],
              data = [''expected'' \<mapsto> [0, 1]],
              node_children = [KeyValueNode ''expected''],
              updated_expected = [(0, [\<lparr>run_info = only_os ''linux'', status = ''TIMEOUT''\<rparr>]),
                                  (1, [\<lparr>run_info = only_os ''win'', status = ''TIMEOUT''\<rparr>])],
              new_expected = [],
              default_status = Some ''PASS'',
              root_modified = True\<rparr>"

definition retimed_once :: test_node where
  "retimed_once = retimed_node\<lparr>
       heap := [\<lparr>condition_node = Some (os_is ''linux''), cv_value = ''TIMEOUT''\<rparr>,
                \<lparr>condition_node = None, cv_value = ''TIMEOUT''\<rparr>]\<rparr>"

definition retimed_twice :: test_node where
  "retimed_twice = retimed_once\<lparr>data := [''expected'' \<mapsto> [1]]\<rparr>"

text \<open>
  A test with \<open>FAIL\<close> on linux stored, that timed out on linux and on mac; the node after
  one and after two calls of \<open>coalesce_expected\<close>.
\<close>

definition spread_node :: test_node where
  "spread_node = \<lparr>heap = [\<lparr>condition_node = Some (os_is ''linux''), cv_value = ''FAIL''\<rparr>],
              data = [''expected'' \<mapsto> [0]],
              node_children = [KeyValueNode ''expected''],
              updated_expected = [(0, [\<lparr>run_info = only_os ''linux'', status = ''TIMEOUT''\<rparr>])],
              new_expected = [\<lparr>run_info = only_os ''mac'', status = ''TIMEOUT''\<rparr>],
              default_status = Some ''PASS'',
              root_modified = True\<rparr>"

definition spread_once :: test_node where
  "spread_once = spread_node\<lparr>
       heap := [\<lparr>condition_node = Some (os_is ''linux''), cv_value = ''TIMEOUT''\<rparr>,
                \<lparr>condition_node = Some (os_is ''mac''), cv_value = ''TIMEOUT''\<rparr>],
       data := [''expected'' \<mapsto> [0, 1]]\<rparr>"

definition spread_twice :: test_node where
  "spread_twice = spread_node\<lparr>
       heap := [\<lparr>condition_node = Some (os_is ''linux''), cv_value = ''TIMEOUT''\<rparr>,
                \<lparr>condition_node = Some (os_is ''mac''), cv_value = ''TIMEOUT''\<rparr>,
                \<lparr>condition_node = Some (os_is ''mac''), cv_value = ''TIMEOUT''\<rparr>],
       data := [''expected'' \<mapsto> [0, 1, 2]]\<rparr>"


text \<open>The two closing \<open>if\<close> statements of \<open>coalesce_expected\<close> as one function of the node.\<close>

definition cleanup :: "test_node \<Rightarrow> test_node" where
  "cleanup st = remove_expected_node
            (if last_is_default st
             then st\<lparr>data := (data st)(''expected'' \<mapsto> remove1 (last (entries st)) (entries st))\<rparr>
             else st)"

section \<open>The synthesizer: what \<open>by_property\<close> holds\<close>

lemma lookup_set_Nil: "lookup_set [] k = {}"
  by (simp add: lookup_set_def)

lemma lookup_set_Cons: "lookup_set (e # bp) k = (if fst e = k then snd e else lookup_set bp k)"
  by (cases e) (simp add: lookup_set_def)

lemma by_property_add_keys: "fst ` set (by_property_add k s bp) = insert k (fst ` set bp)"
  by (induction bp) auto

lemma by_property_add_distinct:
  "distinct (map fst bp) \<Longrightarrow> distinct (map fst (by_property_add k s bp))"
proof (induction bp)
  case Nil
  then show ?case by simp
next
  case (Cons e bp)
  have "fst e \<notin> fst ` set (by_property_add k s bp)" if "fst e \<noteq> k"
    using that Cons.prems by (simp add: by_property_add_keys)
  with Cons show ?case by auto
qed

lemma by_property_add_lookup_same:
  "lookup_set (by_property_add k s bp) k = insert s (lookup_set bp k)"
  by (induction bp) (simp_all add: lookup_set_Nil lookup_set_Cons)

lemma by_property_add_lookup_other:
  "k' \<noteq> k \<Longrightarrow> lookup_set (by_property_add k s bp) k' = lookup_set bp k'"
  by (induction bp) (simp_all add: lookup_set_Nil lookup_set_Cons)

lemma inner_keys:
  "fst ` set (fold (\<lambda>kv. by_property_add (dict_key kv) s) ri bp) = dict_key ` set ri \<union> fst ` set bp"
  by (induction ri arbitrary: bp) (auto simp: by_property_add_keys)

lemma inner_distinct:
  "distinct (map fst bp) \<Longrightarrow> distinct (map fst (fold (\<lambda>kv. by_property_add (dict_key kv) s) ri bp))"
  by (induction ri arbitrary: bp) (simp_all add: by_property_add_distinct)

lemma inner_lookup_in:
  "k \<in> dict_key ` set ri \<Longrightarrow>
   lookup_set (fold (\<lambda>kv. by_property_add (dict_key kv) s) ri bp) k = insert s (lookup_set bp k)"
proof (induction ri arbitrary: bp)
  case Nil
  then show ?case by simp
next
  case (Cons kv ri)
  show ?case
  proof (cases "k \<in> dict_key ` set ri")
    case True
    then show ?thesis
      using Cons.IH [of "by_property_add (dict_key kv) s bp"]
      by (cases "k = dict_key kv")
         (simp_all add: by_property_add_lookup_same by_property_add_lookup_other)
  next
    case False
    with Cons.prems have k: "k = dict_key kv" by simp
    have "lookup_set (fold (\<lambda>kv. by_property_add (dict_key kv) s) ri bp') k = lookup_set bp' k" for bp'
      using False
    proof (induction ri arbitrary: bp')
      case Nil
      then show ?case by simp
    next
      case (Cons a ri)
      then show ?case by (simp add: by_property_add_lookup_other)
    qed
    then show ?thesis by (simp add: k by_property_add_lookup_same)
  qed
qed

lemma inner_lookup_out:
  "k \<notin> dict_key ` set ri \<Longrightarrow>
   lookup_set (fold (\<lambda>kv. by_property_add (dict_key kv) s) ri bp) k = lookup_set bp k"
  by (induction ri arbitrary: bp) (simp_all add: by_property_add_lookup_other)

lemma by_property_from_Nil: "by_property_from [] bp = bp"
  by (simp add: by_property_from_def)

lemma by_property_from_Cons:
  "by_property_from (r # vals) bp =
     by_property_from vals (fold (\<lambda>kv. by_property_add (dict_key kv) (status r)) (run_info r) bp)"
  by (simp add: by_property_from_def)

lemma outer_keys:
  "fst ` set (by_property_from vals bp) = (\<Union>r \<in> set vals. dict_key ` set (run_info r)) \<union> fst ` set bp"
  by (induction vals arbitrary: bp) (auto simp: inner_keys by_property_from_Nil by_property_from_Cons)

lemma outer_distinct:
  "distinct (map fst bp) \<Longrightarrow> distinct (map fst (by_property_from vals bp))"
  by (induction vals arbitrary: bp) (simp_all add: inner_distinct by_property_from_Nil by_property_from_Cons)

lemma statuses_of_Nil: "statuses_of [] k = {}"
  by (simp add: statuses_of_def)

lemma statuses_of_Cons:
  "statuses_of (r # vals) k =
     (if k \<in> dict_key ` set (run_info r) then insert (status r) (statuses_of vals k)
      else statuses_of vals k)"
  by (simp add: statuses_of_def)

lemma outer_lookup:
  "lookup_set (by_property_from vals bp) k = statuses_of vals k \<union> lookup_set bp k"
proof (induction vals arbitrary: bp)
  case Nil
  then show ?case by (simp add: by_property_from_Nil statuses_of_Nil)
next
  case (Cons r vals)
  show ?case
  proof (cases "k \<in> dict_key ` set (run_info r)")
    case True
    then show ?thesis
      by (simp add: by_property_from_Cons Cons.IH statuses_of_Cons inner_lookup_in)
  next
    case False
    then show ?thesis
      by (simp add: by_property_from_Cons Cons.IH statuses_of_Cons inner_lookup_out)
  qed
qed

lemma by_property_of_from: "by_property_of vals = by_property_from vals []"
  by (simp add: by_property_of_def by_property_from_def)

lemma by_property_of_keys:
  "fst ` set (by_property_of vals) = (\<Union>r \<in> set vals. dict_key ` set (run_info r))"
  by (simp add: by_property_of_from outer_keys)

lemma by_property_of_distinct: "distinct (map fst (by_property_of vals))"
  by (simp add: by_property_of_from outer_distinct)

lemma by_property_of_entry:
  assumes "e \<in> set (by_property_of vals)"
  shows "snd e = statuses_of vals (fst e)"
proof -
  have "(fst e, snd e) \<in> set (by_property_of vals)"
    using assms by simp
  then have "map_of (by_property_of vals) (fst e) = Some (snd e)"
    by (simp add: by_property_of_distinct)
  then have "lookup_set (by_property_of vals) (fst e) = snd e"
    by (simp add: lookup_set_def)
  moreover have "lookup_set (by_property_of vals) (fst e) = statuses_of vals (fst e)"
    by (simp add: by_property_of_from outer_lookup lookup_set_Nil)
  ultimately show ?thesis by simp
qed

lemma by_property_of_ex_two: "by_property_of ex_two_results =
   [((''os'', VStr ''linux''), {''PASS''}), ((''debug'', VNum 0), {''FAIL'', ''PASS''}),
    ((''bits'', VNum 64), {''FAIL'', ''PASS''}), ((''os'', VStr ''win''), {''FAIL''})]"
  by (simp add: by_property_of_def ex_two_results_def ex_linux_def ex_win_def dict_key_def)

section \<open>The pruning of candidate discriminators\<close>

text \<open>
  Claim C5, as amended. The candidates are the keys of \<open>by_property\<close>. A candidate is
  discarded exactly when there is more than one input result and the number of distinct
  statuses collected for it equals the number of input results; with a single result
  nothing is discarded.
\<close>

theorem prune_common_discards:
  assumes "k \<in> fst ` set (by_property_of vals)"
  shows "(k \<notin> fst ` set (prune_common vals (by_property_of vals)))
           = (length vals > 1 \<and> card (statuses_of vals k) = length vals)"
proof (cases "length vals > 1")
  case False
  then show ?thesis using assms by (simp add: prune_common_def)
next
  case True
  have "(k \<in> fst ` set (filter (\<lambda>e. \<not> card (snd e) = length vals) (by_property_of vals)))
          = (card (statuses_of vals k) \<noteq> length vals)"
  proof
    assume "k \<in> fst ` set (filter (\<lambda>e. \<not> card (snd e) = length vals) (by_property_of vals))"
    then obtain e where e: "e \<in> set (by_property_of vals)" "fst e = k" "card (snd e) \<noteq> length vals"
      by auto
    then show "card (statuses_of vals k) \<noteq> length vals"
      using by_property_of_entry [OF e(1)] by simp
  next
    assume c: "card (statuses_of vals k) \<noteq> length vals"
    from assms obtain e where e: "e \<in> set (by_property_of vals)" "fst e = k"
      by auto
    then have "card (snd e) \<noteq> length vals"
      using c by_property_of_entry [OF e(1)] by simp
    with e show "k \<in> fst ` set (filter (\<lambda>e. \<not> card (snd e) = length vals) (by_property_of vals))"
      by force
  qed
  with True show ?thesis by (simp add: prune_common_def)
qed

theorem prune_common_discards_witness:
  "(''bits'', VNum 64) \<in> fst ` set (by_property_of ex_two_results)
   \<and> (''bits'', VNum 64) \<notin> fst ` set (prune_common ex_two_results (by_property_of ex_two_results))
   \<and> length ex_two_results > 1
   \<and> card (statuses_of ex_two_results (''bits'', VNum 64)) = length ex_two_results"
proof -
  have k: "(''bits'', VNum 64) \<in> fst ` set (by_property_of ex_two_results)"
    by (simp add: by_property_of_ex_two)
  have c: "card (statuses_of ex_two_results (''bits'', VNum 64)) = length ex_two_results"
    by (simp add: statuses_of_def ex_two_results_def ex_linux_def ex_win_def dict_key_def)
  have l: "length ex_two_results > 1"
    by (simp add: ex_two_results_def)
  show ?thesis
    using prune_common_discards [OF k] k c l by simp
qed

text \<open>
  Claim C5 as stated fails for a single result: the candidate \<open>os = linux\<close> has one status,
  the number of results is one, and the candidate is kept.
\<close>

theorem prune_common_single_result_counterexample:
  "(''os'', VStr ''linux'') \<in> fst ` set (by_property_of ex_single_result)
   \<and> card (statuses_of ex_single_result (''os'', VStr ''linux'')) = length ex_single_result
   \<and> (''os'', VStr ''linux'') \<in> fst ` set (prune_common ex_single_result (by_property_of ex_single_result))"
  by (simp add: by_property_of_def prune_common_def statuses_of_def ex_single_result_def dict_key_def)

section \<open>The empty signature\<close>

lemma prune_same_descriptor:
  assumes "s1 \<noteq> s2"
  shows "prune_common [\<lparr>run_info = ri, status = s1\<rparr>, \<lparr>run_info = ri, status = s2\<rparr>]
           (by_property_of [\<lparr>run_info = ri, status = s1\<rparr>, \<lparr>run_info = ri, status = s2\<rparr>]) = []"
proof -
  let ?vals = "[\<lparr>run_info = ri, status = s1\<rparr>, \<lparr>run_info = ri, status = s2\<rparr>]"
  have "card (snd e) = length ?vals" if "e \<in> set (by_property_of ?vals)" for e
  proof -
    have "fst e \<in> fst ` set (by_property_of ?vals)"
      using that by simp
    then have "fst e \<in> dict_key ` set ri"
      by (simp add: by_property_of_keys)
    then have "statuses_of ?vals (fst e) = {s1, s2}"
      by (simp add: statuses_of_Cons statuses_of_Nil)
    then show ?thesis
      using assms by (simp add: by_property_of_entry [OF that])
  qed
  then have "filter (\<lambda>e. \<not> card (snd e) = length ?vals) (by_property_of ?vals) = []"
    unfolding filter_empty_conv by blast
  then show ?thesis
    unfolding prune_common_def by simp
qed

text \<open>
  Claim C10. For two results with the same descriptor and different statuses every
  candidate discriminator is pruned, no property is selected, the signature of a result
  is the empty tuple, on which \<open>make_expr\<close> fails its assertion, and so
  \<open>group_conditionals\<close> ends in an \<open>AssertionError\<close> instead of returning conditions.
\<close>

theorem group_conditionals_same_descriptor_asserts:
  assumes "s1 \<noteq> s2"
  shows "prune_common [\<lparr>run_info = ri, status = s1\<rparr>, \<lparr>run_info = ri, status = s2\<rparr>]
           (by_property_of [\<lparr>run_info = ri, status = s1\<rparr>, \<lparr>run_info = ri, status = s2\<rparr>]) = []
         \<and> include_props [\<lparr>run_info = ri, status = s1\<rparr>, \<lparr>run_info = ri, status = s2\<rparr>] = []
         \<and> prop_set_of ri (include_props [\<lparr>run_info = ri, status = s1\<rparr>, \<lparr>run_info = ri, status = s2\<rparr>]) = Inr []
         \<and> make_expr [] s1 = Inl AssertionError
         \<and> group_conditionals [\<lparr>run_info = ri, status = s1\<rparr>, \<lparr>run_info = ri, status = s2\<rparr>] = Inl AssertionError"
proof -
  let ?vals = "[\<lparr>run_info = ri, status = s1\<rparr>, \<lparr>run_info = ri, status = s2\<rparr>]"
  have p: "prune_common ?vals (by_property_of ?vals) = []"
    using assms by (rule prune_same_descriptor)
  have i: "include_props ?vals = []"
    by (simp add: include_props_def p include_props_of_def)
  have m: "make_expr [] s1 = Inl AssertionError"
    by (simp add: make_expr_def)
  have "group_conditionals ?vals = Inl AssertionError"
    by (simp add: group_conditionals_def i m)
  with p i m show ?thesis by simp
qed

theorem group_conditionals_same_descriptor_asserts_witness:
  "''PASS'' \<noteq> ''FAIL'' \<and>
   include_props [\<lparr>run_info = ex_linux, status = ''PASS''\<rparr>, \<lparr>run_info = ex_linux, status = ''FAIL''\<rparr>] = [] \<and>
   group_conditionals [\<lparr>run_info = ex_linux, status = ''PASS''\<rparr>, \<lparr>run_info = ex_linux, status = ''FAIL''\<rparr>]
     = Inl AssertionError"
  using group_conditionals_same_descriptor_asserts [of "''PASS''" "''FAIL''" ex_linux] by simp

section \<open>The order of the properties in a synthesized predicate\<close>

lemma node_vars_prop_expr: "node_vars (prop_expr pv) = [fst pv]"
  by (simp add: prop_expr_def Let_def)

lemma node_vars_foldr_and:
  "node_vars (foldr (\<lambda>curr prev. BinaryExpressionNode ''and'' curr prev) xs z)
     = concat (map node_vars xs) @ node_vars z"
  by (induction xs) simp_all

lemma node_vars_and_chain:
  assumes "es \<noteq> []"
  shows "node_vars (and_chain es) = concat (map node_vars es)"
proof (cases "length es > 1")
  case True
  have "concat (map node_vars es) = concat (map node_vars (butlast es @ [last es]))"
    using assms by simp
  also have "\<dots> = concat (map node_vars (butlast es)) @ node_vars (last es)"
    by (simp del: append_butlast_last_id)
  finally show ?thesis
    using True by (simp add: and_chain_def node_vars_foldr_and)
next
  case False
  with assms obtain e where "es = [e]"
    by (cases es) auto
  then show ?thesis by (simp add: and_chain_def)
qed

lemma node_vars_make_expr:
  assumes "make_expr ps s = Inr expr"
  shows "node_vars (children0 expr) = map fst ps"
proof -
  from assms have ne: "ps \<noteq> []" and e: "expr = ConditionalNode (and_chain (map prop_expr ps)) (StringNode s)"
    by (auto simp: make_expr_def split: if_splits)
  have "node_vars (and_chain (map prop_expr ps)) = concat (map node_vars (map prop_expr ps))"
    using ne by (simp add: node_vars_and_chain)
  also have "\<dots> = map fst ps"
    by (induction ps) (simp_all add: node_vars_prop_expr)
  finally show ?thesis by (simp add: e)
qed

lemma prop_set_of_props:
  "prop_set_of ri inc = Inr ps \<Longrightarrow> map fst ps = inc"
  by (induction inc arbitrary: ps) (auto split: option.splits sum.splits)

lemma conditions_loop_vars:
  assumes "conditions_loop inc vals conds = Inr out"
    and "\<And>c. c \<in> set conds \<Longrightarrow> node_vars (children0 (fst (snd c))) = inc"
    and "c \<in> set out"
  shows "node_vars (children0 (fst (snd c))) = inc"
  using assms
proof (induction inc vals conds rule: conditions_loop.induct)
  case (1 inc conds)
  then show ?case by simp
next
  case (2 inc r rs conds)
  from "2.prems"(1) obtain ps where ps: "prop_set_of (run_info r) inc = Inr ps"
    by (auto split: sum.splits)
  show ?case
  proof (cases "map dict_key ps \<in> set (map fst conds)")
    case True
    then show ?thesis
      using "2.IH"(1) [OF ps True] "2.prems" ps by simp
  next
    case False
    from "2.prems"(1) ps False obtain expr where expr: "make_expr ps (status r) = Inr expr"
      by (auto split: sum.splits)
    have loop: "conditions_loop inc rs (conds @ [(map dict_key ps, expr, status r)]) = Inr out"
      using "2.prems"(1) ps False expr by simp
    have new: "node_vars (children0 expr) = inc"
      using node_vars_make_expr [OF expr] prop_set_of_props [OF ps] by simp
    have inv: "node_vars (children0 (fst (snd c'))) = inc"
      if "c' \<in> set (conds @ [(map dict_key ps, expr, status r)])" for c'
    proof (cases "c' \<in> set conds")
      case True
      then show ?thesis by (rule "2.prems"(2))
    next
      case False
      with that have "c' = (map dict_key ps, expr, status r)" by simp
      then show ?thesis using new by simp
    qed
    show ?thesis
      using "2.IH"(2) [OF ps False expr loop inv "2.prems"(3)] by simp
  qed
qed

lemma digit_examples:
  "char_of (54::nat) = CHR ''6''" "char_of (52::nat) = CHR ''4''"
  "char_of (51::nat) = CHR ''3''" "char_of (50::nat) = CHR ''2''"
  by code_simp+

lemma by_property_of_ex_three: "by_property_of ex_three_props =
   [((''os'', VStr ''linux''), {''PASS''}), ((''bits'', VNum 64), {''PASS''}),
    ((''debug'', VNum 0), {''PASS''}), ((''os'', VStr ''win''), {''FAIL''}),
    ((''bits'', VNum 32), {''FAIL''}), ((''debug'', VNum 1), {''FAIL''})]"
  by (simp add: by_property_of_def ex_three_props_def dict_key_def)

lemma include_props_ex_three: "include_props ex_three_props = [''debug'', ''os'', ''bits'']"
proof -
  have "length ex_three_props = 2"
    by (simp add: ex_three_props_def)
  then have "prune_common ex_three_props (by_property_of ex_three_props)
      = by_property_of ex_three_props"
    by (simp add: prune_common_def by_property_of_ex_three)
  then show ?thesis
    by (simp add: include_props_def include_props_of_def prop_order_def by_property_of_ex_three)
qed

lemma group_conditionals_ex_three:
  "group_conditionals ex_three_props =
     Inr [(ConditionalNode ex_linux_pred (StringNode ''PASS''), ''PASS''),
          (ConditionalNode ex_win_pred (StringNode ''FAIL''), ''FAIL'')]"
  unfolding group_conditionals_def include_props_ex_three
  by (simp add: ex_three_props_def ex_linux_pred_def ex_win_pred_def
      make_expr_def and_chain_def prop_expr_def no_value_props_def dict_key_def digit_examples)

text \<open>
  Claim C6. In every condition that \<open>group_conditionals\<close> returns, the properties tested by
  the predicate, read from left to right, are the selected properties: the properties of
  the surviving candidates, in the order debug, os, version, processor, bits.
\<close>

theorem synthesized_predicate_order:
  assumes "group_conditionals vals = Inr conds" and "c \<in> set conds"
  shows "node_vars (children0 (fst c)) = include_props vals
         \<and> include_props vals
             = filter (\<lambda>prop. prop \<in> fst ` fst ` set (prune_common vals (by_property_of vals))) prop_order
         \<and> subseq (include_props vals) [''debug'', ''os'', ''version'', ''processor'', ''bits'']"
proof -
  from assms(1) obtain out where out: "conditions_loop (include_props vals) vals [] = Inr out"
    and conds: "conds = map snd out"
    by (auto simp: group_conditionals_def split: sum.splits)
  from assms(2) conds obtain c' where c': "c' \<in> set out" "c = snd c'"
    by auto
  have "node_vars (children0 (fst (snd c'))) = include_props vals"
    using conditions_loop_vars [OF out _ c'(1)] by simp
  moreover have "include_props vals
             = filter (\<lambda>prop. prop \<in> fst ` fst ` set (prune_common vals (by_property_of vals))) prop_order"
    by (simp add: include_props_def include_props_of_def image_image)
  moreover have "subseq (include_props vals) prop_order"
    by (simp add: include_props_def include_props_of_def)
  ultimately show ?thesis
    using c'(2) by (simp add: prop_order_def)
qed

theorem synthesized_predicate_order_witness:
  "group_conditionals ex_three_props =
     Inr [(ConditionalNode ex_linux_pred (StringNode ''PASS''), ''PASS''),
          (ConditionalNode ex_win_pred (StringNode ''FAIL''), ''FAIL'')]
   \<and> node_vars ex_linux_pred = [''debug'', ''os'', ''bits'']
   \<and> node_vars ex_win_pred = [''debug'', ''os'', ''bits'']
   \<and> include_props ex_three_props = [''debug'', ''os'', ''bits'']
   \<and> map fst (run_info (hd ex_three_props)) = [''os'', ''bits'', ''debug'']
   \<and> subseq (include_props ex_three_props) [''debug'', ''os'', ''version'', ''processor'', ''bits'']"
proof -
  let ?a = "(ConditionalNode ex_linux_pred (StringNode ''PASS''), ''PASS'')"
  let ?b = "(ConditionalNode ex_win_pred (StringNode ''FAIL''), ''FAIL'')"
  have ma: "?a \<in> set [?a, ?b]" and mb: "?b \<in> set [?a, ?b]"
    by simp_all
  have ta: "node_vars (children0 (fst ?a)) = include_props ex_three_props"
    and u: "subseq (include_props ex_three_props) [''debug'', ''os'', ''version'', ''processor'', ''bits'']"
    using synthesized_predicate_order [OF group_conditionals_ex_three ma] by blast+
  have tb: "node_vars (children0 (fst ?b)) = include_props ex_three_props"
    using synthesized_predicate_order [OF group_conditionals_ex_three mb] by blast
  have r: "map fst (run_info (hd ex_three_props)) = [''os'', ''bits'', ''debug'']"
    by (simp add: ex_three_props_def)
  from ta tb have "node_vars ex_linux_pred = [''debug'', ''os'', ''bits'']"
    and "node_vars ex_win_pred = [''debug'', ''os'', ''bits'']"
    by (simp_all add: include_props_ex_three)
  with u r group_conditionals_ex_three include_props_ex_three show ?thesis
    by blast
qed

section \<open>Recording a result: the default status\<close>

lemma set_result_default_fresh:
  assumes "default_status st = None"
  shows "\<exists>st'. set_result ev st ri res = Inr st' \<and> default_status st' = Some (default_expected res)"
  using assms by (simp add: set_result_def Let_def split: option.splits prod.splits)

lemma set_result_default_later:
  assumes "default_status st = Some d"
  shows "(set_result ev st ri res = Inl AssertionError) = (d \<noteq> default_expected res)"
    and "set_result ev st ri res = Inl e \<Longrightarrow> e = AssertionError"
    and "set_result ev st ri res = Inr st' \<Longrightarrow> default_status st' = Some d \<and> d = default_expected res"
  using assms by (auto simp: set_result_def Let_def split: option.splits prod.splits if_splits)

text \<open>
  Claim C9. A node that has seen no result (its \<open>default_status\<close> is \<open>None\<close>) adopts the
  default status the result implies. On a node that has a default status, \<open>set_result\<close>
  fails its assertion if and only if that status differs from the one the new result
  implies, and otherwise it returns and keeps the default status.
\<close>

theorem set_result_default_status:
  "(default_status st = None \<longrightarrow>
      (\<exists>st'. set_result ev st ri res = Inr st' \<and> default_status st' = Some (default_expected res)))
   \<and> (default_status st = Some d \<longrightarrow>
        ((set_result ev st ri res = Inl AssertionError) = (d \<noteq> default_expected res))
        \<and> (d = default_expected res \<longrightarrow>
             (\<exists>st'. set_result ev st ri res = Inr st' \<and> default_status st' = Some d)))"
proof (intro conjI impI)
  assume "default_status st = None"
  then show "\<exists>st'. set_result ev st ri res = Inr st' \<and> default_status st' = Some (default_expected res)"
    by (rule set_result_default_fresh)
next
  assume "default_status st = Some d"
  then show "(set_result ev st ri res = Inl AssertionError) = (d \<noteq> default_expected res)"
    by (rule set_result_default_later(1))
next
  assume d: "default_status st = Some d" and e: "d = default_expected res"
  obtain r where r: "set_result ev st ri res = r" by simp
  show "\<exists>st'. set_result ev st ri res = Inr st' \<and> default_status st' = Some d"
  proof (cases r)
    case (Inl err)
    with r set_result_default_later(2) [OF d] have "set_result ev st ri res = Inl AssertionError"
      by simp
    with set_result_default_later(1) [OF d] e show ?thesis by simp
  next
    case (Inr st')
    with r set_result_default_later(3) [OF d] show ?thesis by simp
  qed
qed

theorem set_result_default_status_witness:
  "default_status ex_node = None
   \<and> (\<exists>st'. set_result ex_ev ex_node ex_mac ex_pass = Inr st' \<and> default_status st' = Some ''PASS'')
   \<and> default_status (ex_node\<lparr>default_status := Some ''PASS''\<rparr>) = Some ''PASS''
   \<and> set_result ex_ev (ex_node\<lparr>default_status := Some ''PASS''\<rparr>) ex_mac ex_ok = Inl AssertionError
   \<and> (\<exists>st'. set_result ex_ev (ex_node\<lparr>default_status := Some ''PASS''\<rparr>) ex_mac ex_pass = Inr st'
          \<and> default_status st' = Some ''PASS'')"
proof -
  have a: "default_status ex_node = None"
    by (simp add: ex_node_def)
  have b: "default_status (ex_node\<lparr>default_status := Some ''PASS''\<rparr>) = Some ''PASS''"
    by simp
  have c: "default_expected ex_pass = ''PASS''" "default_expected ex_ok = ''OK''"
    by (simp_all add: ex_pass_def ex_ok_def)
  show ?thesis
    using set_result_default_status [of ex_node ex_ev ex_mac ex_pass "''PASS''"]
      set_result_default_status [of "ex_node\<lparr>default_status := Some ''PASS''\<rparr>" ex_ev ex_mac ex_ok "''PASS''"]
      set_result_default_status [of "ex_node\<lparr>default_status := Some ''PASS''\<rparr>" ex_ev ex_mac ex_pass "''PASS''"]
      a b c
    by simp
qed

section \<open>Recording a result: first match wins\<close>

lemma record_match_index:
  "record_match ev h ri s ue =
     (let i = length (takeWhile (\<lambda>e. \<not> cond_call ev (h ! fst e) ri) ue) in
      if i < length ue
      then Some (ue[i := (fst (ue ! i), snd (ue ! i) @ [\<lparr>run_info = ri, status = s\<rparr>])],
                 s \<noteq> cv_value (h ! fst (ue ! i)))
      else None)"
  by (induction ue) (simp_all add: Let_def)

lemma takeWhile_first:
  "length (takeWhile P xs) < length xs \<Longrightarrow> \<not> P (xs ! length (takeWhile P xs))"
  by (rule nth_length_takeWhile)

lemma takeWhile_before:
  "j < length (takeWhile P xs) \<Longrightarrow> P (xs ! j)"
  by (metis nth_mem set_takeWhileD takeWhile_nth)

text \<open>
  Claim C3. When the default statuses agree, \<open>set_result\<close> returns. With \<open>i\<close> the number of
  leading tracked conditions whose predicate is false for the descriptor: no condition
  before \<open>i\<close> is true; if \<open>i\<close> is a position of the list, its condition is true, the result
  is appended to the matched results of that condition and of no other, the unplaced
  evidence is unchanged, and the dirty flag is set if the status differs from the stored
  status of that condition (and is left as it was otherwise); if no condition is true the
  result is appended to the unplaced evidence and the dirty flag is set. The stored
  conditions themselves are not touched.
\<close>

theorem set_result_first_match:
  assumes "default_status st = None \<or> default_status st = Some (default_expected res)"
  shows "\<exists>st'. set_result ev st ri res = Inr st'
     \<and> heap st' = heap st \<and> data st' = data st \<and> node_children st' = node_children st
     \<and> (let ue = updated_expected st;
             i = length (takeWhile (\<lambda>e. \<not> cond_call ev (heap st ! fst e) ri) ue) in
         (\<forall>j<i. \<not> cond_call ev (heap st ! fst (ue ! j)) ri)
         \<and> (if i < length ue
            then cond_call ev (heap st ! fst (ue ! i)) ri
               \<and> updated_expected st'
                    = ue[i := (fst (ue ! i), snd (ue ! i) @ [\<lparr>run_info = ri, status = hr_status res\<rparr>])]
               \<and> new_expected st' = new_expected st
               \<and> root_modified st'
                    = (root_modified st \<or> hr_status res \<noteq> cv_value (heap st ! fst (ue ! i)))
            else updated_expected st' = ue
               \<and> new_expected st' = new_expected st @ [\<lparr>run_info = ri, status = hr_status res\<rparr>]
               \<and> root_modified st' = True))"
proof -
  let ?ue = "updated_expected st"
  let ?P = "\<lambda>e. \<not> cond_call ev (heap st ! fst e) ri"
  let ?i = "length (takeWhile ?P ?ue)"
  have before: "\<forall>j<?i. \<not> cond_call ev (heap st ! fst (?ue ! j)) ri"
    using takeWhile_before [of _ ?P ?ue] by blast
  have here: "cond_call ev (heap st ! fst (?ue ! ?i)) ri" if "?i < length ?ue"
    using takeWhile_first [OF that] by simp
  show ?thesis
  proof (cases "?i < length ?ue")
    case True
    then show ?thesis
      using assms before here
      by (auto simp: set_result_def record_match_index Let_def)
  next
    case False
    then show ?thesis
      using assms before
      by (auto simp: set_result_def record_match_index Let_def)
  qed
qed

theorem set_result_first_match_witness:
  "(default_status ex_node = None \<or> default_status ex_node = Some (default_expected ex_pass))
   \<and> (\<exists>st'. set_result ex_ev ex_node ex_mac ex_pass = Inr st'
        \<and> updated_expected st' = [(0, []), (1, [\<lparr>run_info = ex_mac, status = ''PASS''\<rparr>]), (2, [])]
        \<and> new_expected st' = []
        \<and> root_modified st' = True)"
proof -
  have a: "default_status ex_node = None \<or> default_status ex_node = Some (default_expected ex_pass)"
    by (simp add: ex_node_def)
  have h: "heap ex_node = [\<lparr>condition_node = Some (os_is ''linux''), cv_value = ''FAIL''\<rparr>,
                       \<lparr>condition_node = Some (os_is ''mac''), cv_value = ''TIMEOUT''\<rparr>,
                       \<lparr>condition_node = None, cv_value = ''PASS''\<rparr>]"
    and u: "updated_expected ex_node = [(0, []), (1, []), (2, [])]"
    and n: "new_expected ex_node = []"
    by (simp_all add: ex_node_def)
  have c: "\<not> cond_call ex_ev \<lparr>condition_node = Some (os_is ''linux''), cv_value = ''FAIL''\<rparr> ex_mac"
      "cond_call ex_ev \<lparr>condition_node = Some (os_is ''mac''), cv_value = ''TIMEOUT''\<rparr> ex_mac"
    by (simp_all add: cond_call_def os_is_def ex_mac_def)
  have "\<exists>st'. set_result ex_ev ex_node ex_mac ex_pass = Inr st'
        \<and> heap st' = heap ex_node \<and> data st' = data ex_node \<and> node_children st' = node_children ex_node
        \<and> updated_expected st' = [(0, []), (1, [\<lparr>run_info = ex_mac, status = ''PASS''\<rparr>]), (2, [])]
        \<and> new_expected st' = []
        \<and> root_modified st' = True"
    using set_result_first_match [OF a, of ex_ev ex_mac]
    by (simp add: h u n c ex_pass_def)
  then show ?thesis
    using a by blast
qed

section \<open>Coalescing: the loop over the tracked conditions\<close>

lemma entries_data: "data st ''expected'' = Some es \<Longrightarrow> entries st = es"
  by (simp add: entries_def)

lemma remove_value_Inr:
  "remove_value st ''expected'' a = Inr st' \<Longrightarrow>
     a \<in> set (entries st) \<and> st' = st\<lparr>data := (data st)(''expected'' \<mapsto> remove1 a (entries st))\<rparr>"
  by (auto simp: remove_value_def entries_def split: option.splits if_splits)

lemma coalesce_entry_Inr:
  assumes "coalesce_entry us e st = Inr st'"
  shows "st' = st\<lparr>heap := (if entry_updated us (heap st) e
                          then (heap st)[fst e := (heap st ! fst e)\<lparr>cv_value := status (hd (snd e))\<rparr>]
                          else heap st),
                 data := (if entry_dropped us (heap st) e
                          then (data st)(''expected'' \<mapsto> remove1 (fst e) (entries st))
                          else data st),
                 new_expected := new_expected st @ entry_moved us (heap st) e\<rparr>"
proof (cases "snd e = []")
  case True
  with assms show ?thesis
    by (simp add: coalesce_entry_def entry_updated_def entry_dropped_def entry_moved_def)
next
  case ne: False
  show ?thesis
  proof (cases "all_same (snd e)")
    case same: True
    show ?thesis
    proof (cases "Some (status (hd (snd e))) = us \<and> condition_node (heap st ! fst e) \<noteq> None")
      case True
      with assms ne same have "remove_value st ''expected'' (fst e) = Inr st'"
        by (simp add: coalesce_entry_def Let_def)
      from remove_value_Inr [OF this] True ne same show ?thesis
        by (simp add: entry_updated_def entry_dropped_def entry_moved_def)
    next
      case False
      with assms ne same show ?thesis
        by (auto simp: coalesce_entry_def Let_def entry_updated_def entry_dropped_def entry_moved_def)
    qed
  next
    case diff: False
    show ?thesis
    proof (cases "condition_node (heap st ! fst e) \<noteq> None")
      case True
      with assms ne diff obtain st1 where r: "remove_value st ''expected'' (fst e) = Inr st1"
        and s: "st' = st1\<lparr>new_expected := new_expected st1 @ snd e\<rparr>"
        by (auto simp: coalesce_entry_def Let_def split: sum.splits)
      from remove_value_Inr [OF r] s True ne diff show ?thesis
        by (simp add: entry_updated_def entry_dropped_def entry_moved_def)
    next
      case False
      with assms ne diff show ?thesis
        by (simp add: coalesce_entry_def Let_def entry_updated_def entry_dropped_def entry_moved_def)
    qed
  qed
qed

lemma coalesce_entry_heap_length:
  "coalesce_entry us e st = Inr st' \<Longrightarrow> length (heap st') = length (heap st)"
  by (drule coalesce_entry_Inr) simp

lemma coalesce_entry_condition_node:
  assumes "coalesce_entry us e st = Inr st'"
  shows "condition_node (heap st' ! b) = condition_node (heap st ! b)"
proof (cases "b = fst e \<and> fst e < length (heap st)")
  case True
  then show ?thesis
    using coalesce_entry_Inr [OF assms] by simp
next
  case False
  then have "(heap st)[fst e := x] ! b = heap st ! b" for x
    by (cases "b = fst e") (simp_all add: not_less list_update_beyond)
  then show ?thesis
    using coalesce_entry_Inr [OF assms] by simp
qed

lemma coalesce_entry_heap_other:
  "coalesce_entry us e st = Inr st' \<Longrightarrow> b \<noteq> fst e \<Longrightarrow> heap st' ! b = heap st ! b"
  by (drule coalesce_entry_Inr) simp

lemma coalesce_entry_heap_own:
  "coalesce_entry us e st = Inr st' \<Longrightarrow> fst e < length (heap st) \<Longrightarrow>
   heap st' ! fst e = (if entry_updated us (heap st) e
                       then (heap st ! fst e)\<lparr>cv_value := status (hd (snd e))\<rparr>
                       else heap st ! fst e)"
  by (drule coalesce_entry_Inr) simp

lemma coalesce_entry_entries:
  "coalesce_entry us e st = Inr st' \<Longrightarrow>
   entries st' = (if entry_dropped us (heap st) e then remove1 (fst e) (entries st) else entries st)"
  by (drule coalesce_entry_Inr) (simp add: entries_def)

lemma coalesce_entry_frame:
  "coalesce_entry us e st = Inr st' \<Longrightarrow>
   updated_expected st' = updated_expected st \<and> default_status st' = default_status st
   \<and> node_children st' = node_children st \<and> root_modified st' = root_modified st"
  by (drule coalesce_entry_Inr) simp

lemma entry_dropped_cong:
  "condition_node (h' ! fst e) = condition_node (h ! fst e) \<Longrightarrow>
   entry_dropped us h' e = entry_dropped us h e"
  by (simp add: entry_dropped_def)

lemma entry_updated_cong:
  "condition_node (h' ! fst e) = condition_node (h ! fst e) \<Longrightarrow>
   entry_updated us h' e = entry_updated us h e"
  by (simp add: entry_updated_def)

lemma coalesce_conditions_heap_length:
  "coalesce_conditions us ue st = Inr st1 \<Longrightarrow> length (heap st1) = length (heap st)"
proof (induction ue arbitrary: st)
  case Nil
  then show ?case by simp
next
  case (Cons e ue)
  from Cons.prems obtain st' where s: "coalesce_entry us e st = Inr st'"
    and r: "coalesce_conditions us ue st' = Inr st1"
    by (auto split: sum.splits)
  show ?case
    using Cons.IH [OF r] coalesce_entry_heap_length [OF s] by simp
qed

lemma coalesce_conditions_condition_node:
  "coalesce_conditions us ue st = Inr st1 \<Longrightarrow>
   condition_node (heap st1 ! b) = condition_node (heap st ! b)"
proof (induction ue arbitrary: st)
  case Nil
  then show ?case by simp
next
  case (Cons e ue)
  from Cons.prems obtain st' where s: "coalesce_entry us e st = Inr st'"
    and r: "coalesce_conditions us ue st' = Inr st1"
    by (auto split: sum.splits)
  show ?case
    using Cons.IH [OF r] coalesce_entry_condition_node [OF s] by simp
qed

lemma coalesce_conditions_frame:
  "coalesce_conditions us ue st = Inr st1 \<Longrightarrow>
   updated_expected st1 = updated_expected st \<and> default_status st1 = default_status st
   \<and> node_children st1 = node_children st \<and> root_modified st1 = root_modified st"
proof (induction ue arbitrary: st)
  case Nil
  then show ?case by simp
next
  case (Cons e ue)
  from Cons.prems obtain st' where s: "coalesce_entry us e st = Inr st'"
    and r: "coalesce_conditions us ue st' = Inr st1"
    by (auto split: sum.splits)
  show ?case
    using Cons.IH [OF r] coalesce_entry_frame [OF s] by simp
qed

lemma coalesce_conditions_heap_other:
  "coalesce_conditions us ue st = Inr st1 \<Longrightarrow> b \<notin> fst ` set ue \<Longrightarrow> heap st1 ! b = heap st ! b"
proof (induction ue arbitrary: st)
  case Nil
  then show ?case by simp
next
  case (Cons e ue)
  from Cons.prems(1) obtain st' where s: "coalesce_entry us e st = Inr st'"
    and r: "coalesce_conditions us ue st' = Inr st1"
    by (auto split: sum.splits)
  from Cons.prems(2) have b: "b \<noteq> fst e" "b \<notin> fst ` set ue"
    by auto
  show ?case
    using Cons.IH [OF r b(2)] coalesce_entry_heap_other [OF s b(1)] by simp
qed

lemma coalesce_conditions_heap_own:
  assumes "coalesce_conditions us ue st = Inr st1"
    and "distinct (map fst ue)" and "e \<in> set ue" and "fst e < length (heap st)"
  shows "heap st1 ! fst e = (if entry_updated us (heap st) e
                             then (heap st ! fst e)\<lparr>cv_value := status (hd (snd e))\<rparr>
                             else heap st ! fst e)"
  using assms
proof (induction ue arbitrary: st)
  case Nil
  then show ?case by simp
next
  case (Cons x ue)
  from Cons.prems(1) obtain st' where s: "coalesce_entry us x st = Inr st'"
    and r: "coalesce_conditions us ue st' = Inr st1"
    by (auto split: sum.splits)
  from Cons.prems(2) have d: "fst x \<notin> fst ` set ue" "distinct (map fst ue)"
    by auto
  show ?case
  proof (cases "e = x")
    case True
    have "heap st1 ! fst e = heap st' ! fst e"
      using coalesce_conditions_heap_other [OF r] d(1) True by simp
    then show ?thesis
      using coalesce_entry_heap_own [OF s] Cons.prems(4) True by simp
  next
    case False
    with Cons.prems(3) have m: "e \<in> set ue" by simp
    with d(1) have n: "fst e \<noteq> fst x" by (metis imageI)
    have l: "fst e < length (heap st')"
      using coalesce_entry_heap_length [OF s] Cons.prems(4) by simp
    have "heap st' ! fst e = heap st ! fst e"
      using coalesce_entry_heap_other [OF s n] .
    moreover have "entry_updated us (heap st') e = entry_updated us (heap st) e"
      using coalesce_entry_condition_node [OF s] by (rule entry_updated_cong)
    ultimately show ?thesis
      using Cons.IH [OF r d(2) m l] by simp
  qed
qed

lemma remove1_filter_distinct:
  assumes "distinct xs"
  shows "remove1 x xs = filter (\<lambda>y. y \<noteq> x) xs"
proof -
  have "remove1 x xs = filter (\<lambda>y. x \<noteq> y) xs"
    using assms by (simp add: distinct_remove1_removeAll removeAll_filter_not_eq)
  also have "\<dots> = filter (\<lambda>y. y \<noteq> x) xs"
    by (rule filter_cong) auto
  finally show ?thesis .
qed

lemma coalesce_conditions_entries:
  assumes "coalesce_conditions us ue st = Inr st1" and "distinct (entries st)"
  shows "entries st1 =
     filter (\<lambda>b. \<not> (\<exists>e \<in> set ue. fst e = b \<and> entry_dropped us (heap st) e)) (entries st)"
  using assms
proof (induction ue arbitrary: st)
  case Nil
  then show ?case by simp
next
  case (Cons x ue)
  from Cons.prems(1) obtain st' where s: "coalesce_entry us x st = Inr st'"
    and r: "coalesce_conditions us ue st' = Inr st1"
    by (auto split: sum.splits)
  have e': "entries st' = (if entry_dropped us (heap st) x
                           then filter (\<lambda>y. y \<noteq> fst x) (entries st) else entries st)"
    using coalesce_entry_entries [OF s] Cons.prems(2) by (simp add: remove1_filter_distinct)
  then have d': "distinct (entries st')"
    using Cons.prems(2) by simp
  have c: "entry_dropped us (heap st') e = entry_dropped us (heap st) e" for e
    using coalesce_entry_condition_node [OF s] by (rule entry_dropped_cong)
  have "entries st1 =
     filter (\<lambda>b. \<not> (\<exists>e \<in> set ue. fst e = b \<and> entry_dropped us (heap st) e)) (entries st')"
    using Cons.IH [OF r d'] by (simp add: c)
  then show ?case
    by (auto simp: e' intro: filter_cong)
qed

lemma agreeing_branches:
  assumes "snd e \<noteq> []" and "all_same (snd e)"
  shows "entry_dropped us h e = (condition_node (h ! fst e) \<noteq> None \<and> Some (status (hd (snd e))) = us)"
    and "entry_updated us h e = (\<not> (condition_node (h ! fst e) \<noteq> None \<and> Some (status (hd (snd e))) = us))"
  using assms by (auto simp: entry_dropped_def entry_updated_def)

lemma unmatched_branches:
  assumes "snd e = []"
  shows "\<not> entry_dropped us h e" and "\<not> entry_updated us h e"
  using assms by (simp_all add: entry_dropped_def entry_updated_def)

section \<open>Coalescing: the unplaced evidence\<close>

lemma set_attr_conditional:
  "set_attr st ''expected'' v (Some c) =
     st\<lparr>heap := heap st @ [\<lparr>condition_node = Some c, cv_value = v\<rparr>],
        data := (data st)(''expected'' \<mapsto> entries st @ [length (heap st)]),
        node_children :=
          (if KeyValueNode ''expected'' \<in> set (node_children st) then node_children st
           else node_children st @ [KeyValueNode ''expected''])\<rparr>"
  by (simp add: set_attr_def Let_def entries_def [symmetric])

lemma set_attr_unconditional:
  "set_attr st ''expected'' v None =
     (case find (\<lambda>a. condition_node (heap st ! a) = None) (entries st) of
        Some a \<Rightarrow> st\<lparr>heap := (heap st)[a := (heap st ! a)\<lparr>cv_value := v\<rparr>]\<rparr>
      | None \<Rightarrow>
          st\<lparr>heap := heap st @ [\<lparr>condition_node = None, cv_value = v\<rparr>],
             data := (data st)(''expected'' \<mapsto> entries st @ [length (heap st)]),
             node_children :=
               (if KeyValueNode ''expected'' \<in> set (node_children st) then node_children st
                else node_children st @ [KeyValueNode ''expected''])\<rparr>)"
  by (simp add: set_attr_def Let_def entries_def [symmetric])

lemma set_attr_unconditional_new:
  assumes "find (\<lambda>a. condition_node (heap st ! a) = None) (entries st) = None"
  shows "heap (set_attr st ''expected'' v None) = heap st @ [\<lparr>condition_node = None, cv_value = v\<rparr>]"
    and "data (set_attr st ''expected'' v None) ''expected'' = Some (entries st @ [length (heap st)])"
    and "entries (set_attr st ''expected'' v None) = entries st @ [length (heap st)]"
    and "KeyValueNode ''expected'' \<in> set (node_children (set_attr st ''expected'' v None))"
    and "default_status (set_attr st ''expected'' v None) = default_status st"
proof -
  show d: "data (set_attr st ''expected'' v None) ''expected'' = Some (entries st @ [length (heap st)])"
    using assms by (simp add: set_attr_unconditional)
  show "entries (set_attr st ''expected'' v None) = entries st @ [length (heap st)]"
    using d by (rule entries_data)
  show "heap (set_attr st ''expected'' v None) = heap st @ [\<lparr>condition_node = None, cv_value = v\<rparr>]"
    and "KeyValueNode ''expected'' \<in> set (node_children (set_attr st ''expected'' v None))"
    and "default_status (set_attr st ''expected'' v None) = default_status st"
    using assms by (simp_all add: set_attr_unconditional)
qed

lemma set_attr_unconditional_existing:
  assumes "find (\<lambda>a. condition_node (heap st ! a) = None) (entries st) = Some a"
  shows "heap (set_attr st ''expected'' v None) = (heap st)[a := (heap st ! a)\<lparr>cv_value := v\<rparr>]"
    and "entries (set_attr st ''expected'' v None) = entries st"
proof -
  have "set_attr st ''expected'' v None = st\<lparr>heap := (heap st)[a := (heap st ! a)\<lparr>cv_value := v\<rparr>]\<rparr>"
    using assms by (simp add: set_attr_unconditional)
  then show "heap (set_attr st ''expected'' v None) = (heap st)[a := (heap st ! a)\<lparr>cv_value := v\<rparr>]"
    and "entries (set_attr st ''expected'' v None) = entries st"
    by (simp_all add: entries_def)
qed

lemma set_synthesized_shape:
  "\<exists>news. heap (set_synthesized us c st) = heap st @ news
     \<and> entries (set_synthesized us c st)
         = entries st @ [length (heap st) ..< length (heap st) + length news]
     \<and> updated_expected (set_synthesized us c st) = updated_expected st
     \<and> new_expected (set_synthesized us c st) = new_expected st
     \<and> default_status (set_synthesized us c st) = default_status st"
proof (cases "Some (snd c) \<noteq> us")
  case True
  then have "heap (set_synthesized us c st)
      = heap st @ [\<lparr>condition_node = Some (children0 (fst c)), cv_value = snd c\<rparr>]"
    and "entries (set_synthesized us c st) = entries st @ [length (heap st)]"
    and "updated_expected (set_synthesized us c st) = updated_expected st"
    and "new_expected (set_synthesized us c st) = new_expected st"
    and "default_status (set_synthesized us c st) = default_status st"
    by (simp_all add: set_synthesized_def set_attr_conditional entries_def)
  then show ?thesis
    by (intro exI [of _ "[\<lparr>condition_node = Some (children0 (fst c)), cv_value = snd c\<rparr>]"]) simp
next
  case False
  then have "set_synthesized us c st = st"
    by (simp add: set_synthesized_def)
  then show ?thesis
    by (intro exI [of _ "[]"]) simp
qed

lemma fold_set_synthesized_shape:
  "\<exists>news. heap (fold (set_synthesized us) conds st) = heap st @ news
     \<and> entries (fold (set_synthesized us) conds st)
         = entries st @ [length (heap st) ..< length (heap st) + length news]
     \<and> updated_expected (fold (set_synthesized us) conds st) = updated_expected st
     \<and> new_expected (fold (set_synthesized us) conds st) = new_expected st
     \<and> default_status (fold (set_synthesized us) conds st) = default_status st"
proof (induction conds arbitrary: st)
  case Nil
  show ?case by (intro exI [of _ "[]"]) simp
next
  case (Cons c conds)
  let ?s = "set_synthesized us c st"
  obtain n1 where 1: "heap ?s = heap st @ n1"
    "entries ?s = entries st @ [length (heap st) ..< length (heap st) + length n1]"
    "updated_expected ?s = updated_expected st" "new_expected ?s = new_expected st"
    "default_status ?s = default_status st"
    using set_synthesized_shape [of us c st] by blast
  obtain n2 where 2: "heap (fold (set_synthesized us) conds ?s) = heap ?s @ n2"
    "entries (fold (set_synthesized us) conds ?s)
       = entries ?s @ [length (heap ?s) ..< length (heap ?s) + length n2]"
    "updated_expected (fold (set_synthesized us) conds ?s) = updated_expected ?s"
    "new_expected (fold (set_synthesized us) conds ?s) = new_expected ?s"
    "default_status (fold (set_synthesized us) conds ?s) = default_status ?s"
    using Cons.IH [of ?s] by blast
  have u: "[length (heap st) ..< length (heap st) + length n1]
        @ [length (heap st) + length n1 ..< length (heap st) + length n1 + length n2]
      = [length (heap st) ..< length (heap st) + (length n1 + length n2)]"
    by (metis add.assoc le_add1 upt_add_eq_append)
  show ?case
    using 1 2 u by (intro exI [of _ "n1 @ n2"]) simp
qed

lemma coalesce_new_expected_tracked:
  assumes "coalesce_new_expected us st = Inr st2" and "updated_expected st \<noteq> []"
  shows "\<exists>news. heap st2 = heap st @ news
     \<and> entries st2 = entries st @ [length (heap st) ..< length (heap st) + length news]
     \<and> updated_expected st2 = updated_expected st
     \<and> new_expected st2 = new_expected st
     \<and> default_status st2 = default_status st"
proof (cases "new_expected st = []")
  case True
  with assms have "st2 = st"
    by (simp add: coalesce_new_expected_def)
  then show ?thesis
    by (intro exI [of _ "[]"]) simp
next
  case False
  with assms obtain conds where "st2 = fold (set_synthesized us) conds st"
    by (auto simp: coalesce_new_expected_def split: sum.splits)
  then show ?thesis
    using fold_set_synthesized_shape [of us conds st] by simp
qed

lemma coalesce_updates_untracked:
  assumes "updated_expected st = []"
  shows "coalesce_updates st = coalesce_new_expected (unconditional_status st) st"
  by (simp add: coalesce_updates_def assms)

lemma coalesce_updates_split:
  assumes "coalesce_updates st = Inr mid"
  obtains st1 where "coalesce_conditions (unconditional_status st) (updated_expected st) st = Inr st1"
    and "coalesce_new_expected (unconditional_status st) st1 = Inr mid"
  using assms by (auto simp: coalesce_updates_def Let_def split: sum.splits)

section \<open>Coalescing: the closing clean-up\<close>

lemma drop_default_eq:
  "drop_default st =
     Inr (if last_is_default st
          then st\<lparr>data := (data st)(''expected'' \<mapsto> remove1 (last (entries st)) (entries st))\<rparr>
          else st)"
proof (cases "data st ''expected''")
  case None
  then show ?thesis
    by (simp add: drop_default_def last_is_default_def entries_def)
next
  case (Some es)
  then have e: "entries st = es"
    by (rule entries_data)
  show ?thesis
  proof (cases "es = []")
    case True
    with Some e show ?thesis
      by (simp add: drop_default_def last_is_default_def)
  next
    case False
    then have "last es \<in> set es" by simp
    with Some e False show ?thesis
      by (simp add: drop_default_def last_is_default_def remove_value_def)
  qed
qed

lemma remove_expected_node_eq:
  "remove_expected_node st =
     (if data st ''expected'' = Some []
      then st\<lparr>node_children := remove1 (KeyValueNode ''expected'') (node_children st)\<rparr>
      else st)"
  by (simp add: remove_expected_node_def split: option.splits)

lemma coalesce_expected_eq:
  assumes "coalesce_updates st = Inr mid"
  shows "coalesce_expected st =
     Inr (remove_expected_node
            (if last_is_default mid
             then mid\<lparr>data := (data mid)(''expected'' \<mapsto> remove1 (last (entries mid)) (entries mid))\<rparr>
             else mid))"
  by (simp add: coalesce_expected_def assms drop_default_eq)


lemma coalesce_final:
  assumes "coalesce_updates st = Inr mid"
  obtains st' where "coalesce_expected st = Inr st'" and "heap st' = heap mid"
    and "entries st' = (if last_is_default mid then remove1 (last (entries mid)) (entries mid)
                        else entries mid)"
proof -
  let ?d = "if last_is_default mid
             then mid\<lparr>data := (data mid)(''expected'' \<mapsto> remove1 (last (entries mid)) (entries mid))\<rparr>
             else mid"
  have "coalesce_expected st = Inr (remove_expected_node ?d)"
    using assms by (rule coalesce_expected_eq)
  moreover have "heap (remove_expected_node ?d) = heap mid"
    by (simp add: remove_expected_node_eq)
  moreover have "entries (remove_expected_node ?d)
      = (if last_is_default mid then remove1 (last (entries mid)) (entries mid) else entries mid)"
    by (simp add: entries_def remove_expected_node_eq)
  ultimately show ?thesis
    using that by blast
qed

lemma final_member:
  assumes "distinct es"
  shows "(a \<in> set (if c then remove1 (last es) es else es)) = (a \<in> set es \<and> \<not> (c \<and> last es = a))"
  using assms by auto

lemma subseq_remove1: "subseq (remove1 x xs) xs"
  by (induction xs) auto

subsection \<open>Evaluation of the examples\<close>

lemmas synth_defs = group_conditionals_def include_props_def include_props_of_def prune_common_def
      by_property_of_def prop_order_def only_os_def os_is_def
      make_expr_def and_chain_def prop_expr_def no_value_props_def dict_key_def

lemma group_single: "group_conditionals [\<lparr>run_info = only_os s, status = t\<rparr>]
   = Inr [(ConditionalNode (os_is s) (StringNode t), t)]"
  by (simp add: synth_defs)

lemma group_twice: "group_conditionals [\<lparr>run_info = only_os s, status = t\<rparr>, \<lparr>run_info = only_os s, status = t\<rparr>]
   = Inr [(ConditionalNode (os_is s) (StringNode t), t)]"
  by (simp add: synth_defs)

lemmas updates_defs = coalesce_updates_def coalesce_entry_def
  coalesce_new_expected_def unconditional_status_def
  get_attr_def set_attr_def remove_value_def all_same_def set_synthesized_def Let_def

lemmas coalesce_eval = coalesce_expected_def drop_default_def remove_expected_node_def updates_defs


lemma partly_run_updates:
  "coalesce_updates partly_run_node = Inr (partly_run_node\<lparr>data := [''expected'' \<mapsto> [1, 2]]\<rparr>)"
  by (simp add: partly_run_node_def updates_defs)

lemma changed_updates:
  "coalesce_updates changed_node
     = Inr (changed_node\<lparr>heap := [\<lparr>condition_node = Some (os_is ''linux''), cv_value = ''TIMEOUT''\<rparr>]\<rparr>)"
  by (simp add: changed_node_def updates_defs)

lemma wf_examples: "wf_node partly_run_node" "wf_node changed_node"
  by (simp_all add: wf_node_def entries_def partly_run_node_def changed_node_def)




section \<open>Coalescing: the unconditional override\<close>

text \<open>
  Claim C4, as amended. When the unplaced evidence is not empty, all of it has one status
  \<open>S\<close> and the node tracks no condition at all (\<open>updated_expected\<close> is empty), the status is
  written as the unconditional value of \<open>expected\<close>: one new unconditional entry when none
  is stored, the stored unconditional entry overwritten otherwise; when \<open>S\<close> is the default
  status nothing is written. For a node without the attribute, \<open>coalesce_expected\<close> returns
  with exactly that one entry.
\<close>

theorem coalesce_unconditional_override:
  assumes "updated_expected st = []" and "new_expected st \<noteq> []" and "all_same (new_expected st)"
  shows "(Some (status (hd (new_expected st))) = default_status st \<longrightarrow> coalesce_updates st = Inr st)
     \<and> (Some (status (hd (new_expected st))) \<noteq> default_status st \<longrightarrow>
          (\<exists>mid. coalesce_updates st = Inr mid
             \<and> (case find (\<lambda>a. condition_node (heap st ! a) = None) (entries st) of
                  None \<Rightarrow>
                    heap mid = heap st @ [\<lparr>condition_node = None,
                                            cv_value = status (hd (new_expected st))\<rparr>]
                    \<and> entries mid = entries st @ [length (heap st)]
                | Some a \<Rightarrow>
                    heap mid = (heap st)[a := (heap st ! a)\<lparr>cv_value := status (hd (new_expected st))\<rparr>]
                    \<and> entries mid = entries st)))
     \<and> (Some (status (hd (new_expected st))) \<noteq> default_status st \<and> data st ''expected'' = None \<longrightarrow>
          (\<exists>st'. coalesce_expected st = Inr st'
             \<and> heap st' = heap st @ [\<lparr>condition_node = None,
                                       cv_value = status (hd (new_expected st))\<rparr>]
             \<and> entries st' = [length (heap st)]
             \<and> KeyValueNode ''expected'' \<in> set (node_children st')))"
proof -
  let ?S = "status (hd (new_expected st))"
  let ?w = "set_attr st ''expected'' ?S None"
  have u: "coalesce_updates st = Inr (if Some ?S \<noteq> default_status st then ?w else st)"
    using assms by (simp add: coalesce_updates_untracked coalesce_new_expected_def)
  have 1: "Some ?S = default_status st \<longrightarrow> coalesce_updates st = Inr st"
    using u by simp
  have w: "case find (\<lambda>a. condition_node (heap st ! a) = None) (entries st) of
                  None \<Rightarrow> heap ?w = heap st @ [\<lparr>condition_node = None, cv_value = ?S\<rparr>]
                    \<and> entries ?w = entries st @ [length (heap st)]
                | Some a \<Rightarrow> heap ?w = (heap st)[a := (heap st ! a)\<lparr>cv_value := ?S\<rparr>]
                    \<and> entries ?w = entries st"
  proof (cases "find (\<lambda>a. condition_node (heap st ! a) = None) (entries st)")
    case None
    then show ?thesis
      using set_attr_unconditional_new(1,3) [OF None] by simp
  next
    case (Some a)
    then show ?thesis
      using set_attr_unconditional_existing [OF Some] by simp
  qed
  have 2: "Some ?S \<noteq> default_status st \<longrightarrow>
          (\<exists>mid. coalesce_updates st = Inr mid
             \<and> (case find (\<lambda>a. condition_node (heap st ! a) = None) (entries st) of
                  None \<Rightarrow> heap mid = heap st @ [\<lparr>condition_node = None, cv_value = ?S\<rparr>]
                    \<and> entries mid = entries st @ [length (heap st)]
                | Some a \<Rightarrow> heap mid = (heap st)[a := (heap st ! a)\<lparr>cv_value := ?S\<rparr>]
                    \<and> entries mid = entries st))"
    using u w by simp
  have 3: "\<exists>st'. coalesce_expected st = Inr st'
             \<and> heap st' = heap st @ [\<lparr>condition_node = None, cv_value = ?S\<rparr>]
             \<and> entries st' = [length (heap st)]
             \<and> KeyValueNode ''expected'' \<in> set (node_children st')"
    if n: "Some ?S \<noteq> default_status st" and d: "data st ''expected'' = None"
  proof -
    from d have e: "entries st = []"
      by (simp add: entries_def)
    have m: "coalesce_updates st = Inr ?w"
      using u n by simp
    from e have fn: "find (\<lambda>a. condition_node (heap st ! a) = None) (entries st) = None"
      by simp
    have hw: "heap ?w = heap st @ [\<lparr>condition_node = None, cv_value = ?S\<rparr>]"
      and ew: "entries ?w = [length (heap st)]"
      and dw: "data ?w ''expected'' = Some [length (heap st)]"
      and kw: "KeyValueNode ''expected'' \<in> set (node_children ?w)"
      and sw: "default_status ?w = default_status st"
      using set_attr_unconditional_new [OF fn] e by simp_all
    have nl: "\<not> last_is_default ?w"
      using n by (simp add: last_is_default_def ew hw sw)
    have "coalesce_expected st = Inr ?w"
      using coalesce_expected_eq [OF m] nl dw by (simp add: remove_expected_node_eq)
    then show ?thesis
      using hw ew kw by simp
  qed
  show ?thesis
    using 1 2 3 by blast
qed

theorem coalesce_unconditional_override_witness:
  "updated_expected new_node = [] \<and> new_expected new_node \<noteq> [] \<and> all_same (new_expected new_node)
   \<and> Some (status (hd (new_expected new_node))) \<noteq> default_status new_node
   \<and> data new_node ''expected'' = None
   \<and> (\<exists>st'. coalesce_expected new_node = Inr st'
         \<and> heap st' = [\<lparr>condition_node = None, cv_value = ''TIMEOUT''\<rparr>]
         \<and> entries st' = [0])"
proof -
  have a: "updated_expected new_node = []" "new_expected new_node \<noteq> []" "all_same (new_expected new_node)"
    by (simp_all add: new_node_def all_same_def)
  have b: "Some (status (hd (new_expected new_node))) \<noteq> default_status new_node"
    "data new_node ''expected'' = None" "heap new_node = []"
    "status (hd (new_expected new_node)) = ''TIMEOUT''"
    by (simp_all add: new_node_def)
  have "\<exists>st'. coalesce_expected new_node = Inr st'
         \<and> heap st' = [\<lparr>condition_node = None, cv_value = ''TIMEOUT''\<rparr>]
         \<and> entries st' = [0]"
    using coalesce_unconditional_override [OF a] b by auto
  then show ?thesis
    using a b by simp
qed

text \<open>
  Claim C4 as stated fails when a tracked condition exists and none survives: the only
  tracked condition of \<open>moved_node\<close> is removed by the loop, the unplaced evidence has the
  single status \<open>TIMEOUT\<close>, and the entry written is conditional (\<open>os == "mac"\<close>), since
  the code tests whether \<open>updated_expected\<close> is empty.
\<close>

theorem coalesce_unconditional_override_counterexample:
  "new_expected moved_node = [\<lparr>run_info = only_os ''mac'', status = ''TIMEOUT''\<rparr>]
   \<and> all_same (new_expected moved_node)
   \<and> coalesce_conditions (unconditional_status moved_node) (updated_expected moved_node) moved_node
       = Inr (moved_node\<lparr>data := [''expected'' \<mapsto> []]\<rparr>)
   \<and> coalesce_expected moved_node = Inr moved_node_after
   \<and> entries moved_node_after = [1]
   \<and> heap moved_node_after ! 1 = \<lparr>condition_node = Some (os_is ''mac''), cv_value = ''TIMEOUT''\<rparr>"
  by (simp add: moved_node_def moved_node_after_def entries_def coalesce_expected_def drop_default_def
      remove_expected_node_def updates_defs group_single)

section \<open>Coalescing twice\<close>

lemma cleanup_fields:
  "heap (cleanup st) = heap st" "default_status (cleanup st) = default_status st"
  "updated_expected (cleanup st) = updated_expected st" "new_expected (cleanup st) = new_expected st"
  "entries (cleanup st)
     = (if last_is_default st then remove1 (last (entries st)) (entries st) else entries st)"
  by (simp_all add: cleanup_def remove_expected_node_eq entries_def)

lemma cleanup_not_default:
  assumes "length (filter (\<lambda>a. condition_node (heap st ! a) = None) (entries st)) \<le> 1"
  shows "\<not> last_is_default (cleanup st)"
proof (cases "last_is_default st")
  case False
  then have "entries (cleanup st) = entries st"
    by (simp add: cleanup_fields(5))
  then have "last_is_default (cleanup st) = last_is_default st"
    by (simp add: last_is_default_def cleanup_fields(1,2))
  with False show ?thesis by simp
next
  case True
  let ?P = "\<lambda>a. condition_node (heap st ! a) = None"
  let ?es = "entries st"
  from True have l: "last ?es \<in> set (filter ?P ?es)"
    by (simp add: last_is_default_def)
  have "length (filter ?P (remove1 (last ?es) ?es)) = length (filter ?P ?es) - 1"
    using l by (simp add: filter_remove1 length_remove1)
  with assms have "filter ?P (remove1 (last ?es) ?es) = []"
    by simp
  then have none: "\<not> ?P a" if "a \<in> set (remove1 (last ?es) ?es)" for a
    using that by (simp add: filter_empty_conv)
  show ?thesis
  proof
    assume d: "last_is_default (cleanup st)"
    then have "entries (cleanup st) \<noteq> []" and "?P (last (entries (cleanup st)))"
      by (simp_all add: last_is_default_def cleanup_fields(1))
    moreover have "entries (cleanup st) = remove1 (last ?es) ?es"
      using True by (simp add: cleanup_fields)
    ultimately show False
      using none [of "last (remove1 (last ?es) ?es)"] by simp
  qed
qed

lemma cleanup_idem:
  assumes "length (filter (\<lambda>a. condition_node (heap st ! a) = None) (entries st)) \<le> 1"
    and "distinct (node_children st)"
  shows "cleanup (cleanup st) = cleanup st"
proof -
  have n: "\<not> last_is_default (cleanup st)"
    using assms(1) by (rule cleanup_not_default)
  have k: "KeyValueNode ''expected'' \<notin> set (node_children (cleanup st))"
    if "data (cleanup st) ''expected'' = Some []"
    using that assms(2) by (auto simp: cleanup_def remove_expected_node_eq split: if_splits)
  have "cleanup (cleanup st) = remove_expected_node (cleanup st)"
    using n by (simp add: cleanup_def [of "cleanup st"])
  also have "\<dots> = cleanup st"
    using k by (simp add: remove_expected_node_eq remove1_idem)
  finally show ?thesis .
qed

lemma cv_value_update_id: "cv_value c = v \<Longrightarrow> c\<lparr>cv_value := v\<rparr> = c"
  by auto

lemma heap_update_id:
  assumes "cv_value (heap st ! a) = v"
  shows "st\<lparr>heap := (heap st)[a := (heap st ! a)\<lparr>cv_value := v\<rparr>]\<rparr> = st"
proof -
  have "(heap st ! a)\<lparr>cv_value := v\<rparr> = heap st ! a"
    using assms by (rule cv_value_update_id)
  then show ?thesis by simp
qed

lemma coalesce_entry_updated:
  assumes "entry_updated us (heap st) e"
  shows "coalesce_entry us e st
     = Inr (st\<lparr>heap := (heap st)[fst e := (heap st ! fst e)\<lparr>cv_value := status (hd (snd e))\<rparr>]\<rparr>)"
  using assms by (auto simp: coalesce_entry_def entry_updated_def Let_def)

lemma coalesce_entry_unmatched:
  assumes "snd e = []"
  shows "coalesce_entry us e st = Inr st"
  using assms by (simp add: coalesce_entry_def)

lemma coalesce_conditions_quiet:
  assumes "list_all (\<lambda>e. snd e = [] \<or> entry_updated us (heap st) e) ue"
  shows "\<exists>h. coalesce_conditions us ue st = Inr (st\<lparr>heap := h\<rparr>)"
  using assms
proof (induction ue arbitrary: st)
  case Nil
  show ?case by (intro exI [of _ "heap st"]) simp
next
  case (Cons e ue)
  from Cons.prems have e: "snd e = [] \<or> entry_updated us (heap st) e"
    and r: "list_all (\<lambda>e. snd e = [] \<or> entry_updated us (heap st) e) ue"
    by simp_all
  obtain h1 where s: "coalesce_entry us e st = Inr (st\<lparr>heap := h1\<rparr>)"
  proof (cases "snd e = []")
    case True
    then have "coalesce_entry us e st = Inr (st\<lparr>heap := heap st\<rparr>)"
      by (simp add: coalesce_entry_unmatched)
    then show ?thesis by (rule that)
  next
    case False
    with e have "entry_updated us (heap st) e" by simp
    then show ?thesis
      using coalesce_entry_updated that by blast
  qed
  have c: "entry_updated us (heap (st\<lparr>heap := h1\<rparr>)) x = entry_updated us (heap st) x" for x
    using coalesce_entry_condition_node [OF s] by (rule entry_updated_cong)
  have "list_all (\<lambda>e. snd e = [] \<or> entry_updated us (heap (st\<lparr>heap := h1\<rparr>)) e) ue"
    using r by (simp only: c)
  from Cons.IH [OF this] obtain h where
    "coalesce_conditions us ue (st\<lparr>heap := h1\<rparr>) = Inr (st\<lparr>heap := h1\<rparr>\<lparr>heap := h\<rparr>)"
    by blast
  then have "coalesce_conditions us (e # ue) st = Inr (st\<lparr>heap := h\<rparr>)"
    using s by simp
  then show ?case by blast
qed

lemma coalesce_conditions_fixed:
  assumes "list_all (\<lambda>e. snd e = [] \<or> (entry_updated us (heap st) e
                           \<and> cv_value (heap st ! fst e) = status (hd (snd e)))) ue"
  shows "coalesce_conditions us ue st = Inr st"
  using assms
proof (induction ue)
  case Nil
  show ?case by simp
next
  case (Cons e ue)
  have "coalesce_entry us e st = Inr st"
  proof (cases "snd e = []")
    case True
    then show ?thesis by (rule coalesce_entry_unmatched)
  next
    case False
    with Cons.prems have u: "entry_updated us (heap st) e"
      and v: "cv_value (heap st ! fst e) = status (hd (snd e))"
      by simp_all
    show ?thesis
      using coalesce_entry_updated [OF u] heap_update_id [OF v] by simp
  qed
  with Cons show ?case by simp
qed

lemma not_redundant_updated:
  assumes "list_all (\<lambda>e. snd e = [] \<or> all_same (snd e)) ue"
    and "list_all (\<lambda>e. snd e = [] \<or> condition_node (h ! fst e) = None
                  \<or> Some (status (hd (snd e))) \<noteq> us) ue"
    and "e \<in> set ue"
  shows "snd e = [] \<or> entry_updated us h e"
  using assms by (auto simp: list_all_iff entry_updated_def)

lemma coalesce_expected_cleanup_eq:
  assumes "coalesce_updates st = Inr mid"
  shows "coalesce_expected st = Inr (cleanup mid)"
  using coalesce_expected_eq [OF assms] by (simp add: cleanup_def)

lemma fold_set_synthesized_skip:
  "list_all (\<lambda>c. Some (snd c) = us) conds \<Longrightarrow> fold (set_synthesized us) conds st = st"
  by (induction conds) (simp_all add: set_synthesized_def)

lemma coalesce_new_expected_quiet:
  assumes "pool_quiet us st"
    and "\<not> (new_expected st \<noteq> [] \<and> all_same (new_expected st) \<and> updated_expected st = [])"
  shows "coalesce_new_expected us st = Inr st"
proof (cases "new_expected st = []")
  case True
  then show ?thesis by (simp add: coalesce_new_expected_def)
next
  case False
  with assms obtain conds where g: "group_conditionals (new_expected st) = Inr conds"
    and a: "list_all (\<lambda>c. Some (snd c) = us) conds"
    by (auto simp: pool_quiet_def split: sum.splits)
  show ?thesis
    using False assms(2) g fold_set_synthesized_skip [OF a]
    by (auto simp: coalesce_new_expected_def)
qed

lemma pool_quiet_cong:
  "new_expected st' = new_expected st \<Longrightarrow> updated_expected st' = updated_expected st \<Longrightarrow>
   pool_quiet us st' = pool_quiet us st"
  by (simp add: pool_quiet_def)

lemma idempotent_tracked:
  assumes s: "settled st" and n: "not_redundant (unconditional_status st) st"
    and pq: "pool_quiet (unconditional_status st) st"
    and ne: "updated_expected st \<noteq> []"
  shows "\<exists>st'. coalesce_expected st = Inr st'
     \<and> (not_redundant (unconditional_status st') st \<and> pool_quiet (unconditional_status st') st
          \<longrightarrow> coalesce_expected st' = Inr st')"
proof -
  let ?us = "unconditional_status st"
  let ?ue = "updated_expected st"
  from s have wf: "wf_node st"
    and one: "length (filter (\<lambda>a. condition_node (heap st ! a) = None) (entries st)) \<le> 1"
    and kids: "distinct (node_children st)"
    and agree: "list_all (\<lambda>e. snd e = [] \<or> all_same (snd e)) ?ue"
    by (simp_all add: settled_def)
  from wf have du: "distinct (map fst ?ue)"
    and ru: "\<And>e. e \<in> set ?ue \<Longrightarrow> fst e < length (heap st)"
    by (simp_all add: wf_node_def list_all_iff)
  have q: "snd e = [] \<or> entry_updated ?us (heap st) e" if "e \<in> set ?ue" for e
    using not_redundant_updated [OF agree _ that] n by (simp add: not_redundant_def)
  then have "list_all (\<lambda>e. snd e = [] \<or> entry_updated ?us (heap st) e) ?ue"
    by (simp add: list_all_iff)
  then obtain h where l: "coalesce_conditions ?us ?ue st = Inr (st\<lparr>heap := h\<rparr>)"
    using coalesce_conditions_quiet by blast
  let ?st1 = "st\<lparr>heap := h\<rparr>"
  have "pool_quiet ?us ?st1 = pool_quiet ?us st"
    by (rule pool_quiet_cong) simp_all
  with pq have "pool_quiet ?us ?st1"
    by simp
  moreover have "\<not> (new_expected ?st1 \<noteq> [] \<and> all_same (new_expected ?st1)
      \<and> updated_expected ?st1 = [])"
    using ne by simp
  ultimately have "coalesce_new_expected ?us ?st1 = Inr ?st1"
    by (rule coalesce_new_expected_quiet)
  then have u1: "coalesce_updates st = Inr ?st1"
    using l by (simp add: coalesce_updates_def)
  have c1: "coalesce_expected st = Inr (cleanup ?st1)"
    using u1 by (rule coalesce_expected_cleanup_eq)
  let ?st' = "cleanup ?st1"
  have cn: "condition_node (h ! b) = condition_node (heap st ! b)" for b
    using coalesce_conditions_condition_node [OF l, of b] by simp
  have hv: "cv_value (h ! fst e) = status (hd (snd e))" if "e \<in> set ?ue" "snd e \<noteq> []" for e
  proof -
    from q [OF that(1)] that(2) have "entry_updated ?us (heap st) e" by simp
    then show ?thesis
      using coalesce_conditions_heap_own [OF l du that(1) ru [OF that(1)]] by simp
  qed
  have f: "heap ?st' = h" "updated_expected ?st' = ?ue" "new_expected ?st' = new_expected st"
    by (simp_all add: cleanup_fields)
  have second: "coalesce_expected ?st' = Inr ?st'"
    if n': "not_redundant (unconditional_status ?st') st"
      and pq': "pool_quiet (unconditional_status ?st') st"
  proof -
    let ?us' = "unconditional_status ?st'"
    have "snd e = [] \<or> (entry_updated ?us' h e \<and> cv_value (h ! fst e) = status (hd (snd e)))"
      if m: "e \<in> set ?ue" for e
    proof (cases "snd e = []")
      case True
      then show ?thesis by simp
    next
      case False
      have "list_all (\<lambda>e. snd e = [] \<or> condition_node (h ! fst e) = None
                  \<or> Some (status (hd (snd e))) \<noteq> ?us') ?ue"
        using n' by (simp add: not_redundant_def cn)
      from not_redundant_updated [OF agree this m] False hv [OF m False]
      show ?thesis by simp
    qed
    then have "list_all (\<lambda>e. snd e = [] \<or> (entry_updated ?us' (heap ?st') e
                           \<and> cv_value (heap ?st' ! fst e) = status (hd (snd e)))) (updated_expected ?st')"
      by (simp add: list_all_iff f)
    then have l': "coalesce_conditions ?us' (updated_expected ?st') ?st' = Inr ?st'"
      by (rule coalesce_conditions_fixed)
    have "pool_quiet ?us' ?st' = pool_quiet ?us' st"
      using f(3) f(2) by (rule pool_quiet_cong)
    with pq' have "pool_quiet ?us' ?st'"
      by simp
    moreover have "\<not> (new_expected ?st' \<noteq> [] \<and> all_same (new_expected ?st')
        \<and> updated_expected ?st' = [])"
      using ne f(2) by simp
    ultimately have "coalesce_new_expected ?us' ?st' = Inr ?st'"
      by (rule coalesce_new_expected_quiet)
    then have "coalesce_updates ?st' = Inr ?st'"
      using l' by (simp add: coalesce_updates_def)
    then have "coalesce_expected ?st' = Inr (cleanup ?st')"
      by (rule coalesce_expected_cleanup_eq)
    moreover have "cleanup ?st' = ?st'"
    proof (rule cleanup_idem)
      have "filter (\<lambda>a. condition_node (heap ?st1 ! a) = None) (entries ?st1)
          = filter (\<lambda>a. condition_node (heap st ! a) = None) (entries st)"
        by (simp add: cn entries_def)
      then show "length (filter (\<lambda>a. condition_node (heap ?st1 ! a) = None) (entries ?st1)) \<le> 1"
        using one by simp
      show "distinct (node_children ?st1)"
        using kids by simp
    qed
    ultimately show ?thesis by simp
  qed
  show ?thesis
    using c1 second by blast
qed

lemma find_append_none:
  "find P xs = None \<Longrightarrow> find P (xs @ ys) = find P ys"
  by (induction xs) (auto split: if_splits)

lemma find_unconditional_unique:
  assumes "length (filter P es) \<le> 1" and "find P es = Some a" and "b \<in> set es" and "P b"
  shows "b = a"
proof -
  from assms(2) have "a \<in> set (filter P es)"
    by (auto simp: find_Some_iff)
  moreover from assms(3,4) have "b \<in> set (filter P es)"
    by simp
  moreover from assms(1) have "card (set (filter P es)) \<le> 1"
    using card_length [of "filter P es"] by linarith
  ultimately show ?thesis
    by (metis card_le_Suc0_iff_eq List.finite_set One_nat_def)
qed

lemma set_attr_unconditional_same:
  assumes "find (\<lambda>a. condition_node (heap st ! a) = None) (entries st) = Some u"
    and "cv_value (heap st ! u) = v"
  shows "set_attr st ''expected'' v None = st"
  using assms heap_update_id [of st u v] by (simp add: set_attr_unconditional)

lemma override_written:
  assumes wf: "wf_node st"
    and one: "length (filter (\<lambda>a. condition_node (heap st ! a) = None) (entries st)) \<le> 1"
  shows "\<exists>u. find (\<lambda>a. condition_node (heap (set_attr st ''expected'' v None) ! a) = None)
                (entries (set_attr st ''expected'' v None)) = Some u
            \<and> cv_value (heap (set_attr st ''expected'' v None) ! u) = v"
    and "entries (set_attr st ''expected'' v None) \<noteq> []"
    and "\<And>b. b \<in> set (entries (set_attr st ''expected'' v None)) \<Longrightarrow>
           condition_node (heap (set_attr st ''expected'' v None) ! b) = None \<Longrightarrow>
           cv_value (heap (set_attr st ''expected'' v None) ! b) = v"
    and "length (filter (\<lambda>a. condition_node (heap (set_attr st ''expected'' v None) ! a) = None)
                  (entries (set_attr st ''expected'' v None))) \<le> 1"
proof -
  let ?P = "\<lambda>a. condition_node (heap st ! a) = None"
  let ?w = "set_attr st ''expected'' v None"
  let ?Q = "\<lambda>a. condition_node (heap ?w ! a) = None"
  from wf have r: "\<And>b. b \<in> set (entries st) \<Longrightarrow> b < length (heap st)"
    by (simp add: wf_node_def list_all_iff)
  have main: "(\<exists>u. find ?Q (entries ?w) = Some u \<and> cv_value (heap ?w ! u) = v)
      \<and> entries ?w \<noteq> []
      \<and> (\<forall>b \<in> set (entries ?w). ?Q b \<longrightarrow> cv_value (heap ?w ! b) = v)
      \<and> length (filter ?Q (entries ?w)) \<le> 1"
  proof (cases "find ?P (entries st)")
    case None
    note w = set_attr_unconditional_new [OF None, of v]
    have old: "\<not> ?P b" if "b \<in> set (entries st)" for b
      using None that by (auto simp: find_None_iff)
    have oldw: "heap ?w ! b = heap st ! b" if "b \<in> set (entries st)" for b
      using r [OF that] by (simp add: w(1) nth_append)
    have neww: "heap ?w ! length (heap st) = \<lparr>condition_node = None, cv_value = v\<rparr>"
      by (simp add: w(1))
    have nq: "\<not> ?Q b" if "b \<in> set (entries st)" for b
      using old [OF that] oldw [OF that] by simp
    have fil: "filter ?Q (entries ?w) = [length (heap st)]"
      using nq neww by (simp add: w(3) filter_empty_conv)
    have "find ?Q (entries ?w) = Some (length (heap st))"
    proof -
      have "find ?Q (entries st) = None"
        using nq by (simp add: find_None_iff)
      then show ?thesis
        using neww by (simp add: w(3) find_append_none)
    qed
    moreover have "\<forall>b \<in> set (entries ?w). ?Q b \<longrightarrow> cv_value (heap ?w ! b) = v"
    proof (intro ballI impI)
      fix b
      assume b: "b \<in> set (entries ?w)" and q: "?Q b"
      from b have "b \<in> set (entries st) \<or> b = length (heap st)"
        by (auto simp: w(3))
      with q nq have "b = length (heap st)"
        by blast
      then show "cv_value (heap ?w ! b) = v"
        using neww by simp
    qed
    ultimately show ?thesis
      using neww fil by (simp add: w(3))
  next
    case (Some a)
    note w = set_attr_unconditional_existing [OF Some, of v]
    from Some have a: "a \<in> set (entries st)" "?P a"
      by (auto simp: find_Some_iff)
    have la: "a < length (heap st)"
      using r [OF a(1)] .
    have cn: "condition_node (heap ?w ! b) = condition_node (heap st ! b)" for b
      by (cases "b = a") (simp_all add: w(1) la)
    have va: "cv_value (heap ?w ! a) = v"
      by (simp add: w(1) la)
    have "find ?Q (entries ?w) = Some a"
      using Some by (simp add: w(2) cn)
    moreover have "cv_value (heap ?w ! b) = v" if "b \<in> set (entries ?w)" "?Q b" for b
    proof -
      from that have "b \<in> set (entries st)" "?P b"
        by (simp_all add: w(2) cn)
      then have "b = a"
        using find_unconditional_unique [OF one Some] by blast
      then show ?thesis using va by simp
    qed
    moreover have "entries ?w \<noteq> []"
      using a(1) by (auto simp: w(2))
    moreover have "length (filter ?Q (entries ?w)) \<le> 1"
      using one by (simp add: w(2) cn)
    ultimately show ?thesis
      using va by blast
  qed
  from main show "\<exists>u. find ?Q (entries ?w) = Some u \<and> cv_value (heap ?w ! u) = v"
    and "entries ?w \<noteq> []"
    and "length (filter ?Q (entries ?w)) \<le> 1"
    by blast+
  from main show "\<And>b. b \<in> set (entries ?w) \<Longrightarrow> ?Q b \<Longrightarrow> cv_value (heap ?w ! b) = v"
    by blast
qed

lemma set_attr_frame:
  "updated_expected (set_attr st key v c) = updated_expected st"
  "new_expected (set_attr st key v c) = new_expected st"
  "default_status (set_attr st key v c) = default_status st"
  "distinct (node_children st) \<Longrightarrow> distinct (node_children (set_attr st key v c))"
  by (simp_all add: set_attr_def Let_def split: option.splits)

lemma cleanup_unchanged:
  assumes "\<not> last_is_default st" and "entries st \<noteq> []"
  shows "cleanup st = st"
proof -
  from assms(2) have "data st ''expected'' \<noteq> Some []"
    by (auto simp: entries_def)
  with assms(1) show ?thesis
    by (simp add: cleanup_def remove_expected_node_eq)
qed

lemma idempotent_untracked:
  assumes s: "settled st" and ue: "updated_expected st = []"
    and pq: "pool_quiet (unconditional_status st) st"
  shows "\<exists>st'. coalesce_expected st = Inr st'
     \<and> (pool_quiet (unconditional_status st') st \<longrightarrow> coalesce_expected st' = Inr st')"
proof -
  let ?P = "\<lambda>a. condition_node (heap st ! a) = None"
  from s have wf: "wf_node st"
    and one: "length (filter ?P (entries st)) \<le> 1"
    and kids: "distinct (node_children st)"
    by (auto simp: settled_def)
  let ?S = "status (hd (new_expected st))"
  let ?override = "new_expected st \<noteq> [] \<and> all_same (new_expected st)"
  have unchanged: ?thesis if u: "\<And>us. pool_quiet us st \<Longrightarrow> coalesce_new_expected us st = Inr st"
    and u': "\<And>us. pool_quiet us st \<Longrightarrow> coalesce_new_expected us (cleanup st) = Inr (cleanup st)"
  proof -
    have "coalesce_updates st = Inr st"
      using ue u [OF pq] by (simp add: coalesce_updates_def)
    then have 1: "coalesce_expected st = Inr (cleanup st)"
      by (rule coalesce_expected_cleanup_eq)
    have "coalesce_expected (cleanup st) = Inr (cleanup st)"
      if "pool_quiet (unconditional_status (cleanup st)) st"
    proof -
      have "coalesce_updates (cleanup st) = Inr (cleanup st)"
        using ue u' [OF that] by (simp add: coalesce_updates_def cleanup_fields)
      then have "coalesce_expected (cleanup st) = Inr (cleanup (cleanup st))"
        by (rule coalesce_expected_cleanup_eq)
      then show ?thesis
        using cleanup_idem [OF one kids] by simp
    qed
    with 1 show ?thesis by blast
  qed
  show ?thesis
  proof (cases ?override)
    case False
    show ?thesis
    proof (rule unchanged)
      fix us
      assume "pool_quiet us st"
      then show "coalesce_new_expected us st = Inr st"
        using False by (intro coalesce_new_expected_quiet) blast+
    next
      fix us
      assume "pool_quiet us st"
      moreover have "pool_quiet us (cleanup st) = pool_quiet us st"
        by (rule pool_quiet_cong) (simp_all add: cleanup_fields)
      ultimately have "pool_quiet us (cleanup st)"
        by simp
      then show "coalesce_new_expected us (cleanup st) = Inr (cleanup st)"
      proof (rule coalesce_new_expected_quiet)
        show "\<not> (new_expected (cleanup st) \<noteq> [] \<and> all_same (new_expected (cleanup st))
            \<and> updated_expected (cleanup st) = [])"
          using False by (auto simp: cleanup_fields)
      qed
    qed
  next
    case True
    then have ne: "new_expected st \<noteq> []" and same: "all_same (new_expected st)"
      by simp_all
    show ?thesis
    proof (cases "Some ?S = default_status st")
      case d: True
      show ?thesis
      proof (rule unchanged)
        fix us
        show "coalesce_new_expected us st = Inr st"
          using ue ne same d by (simp add: coalesce_new_expected_def)
        show "coalesce_new_expected us (cleanup st) = Inr (cleanup st)"
          using ue ne same d by (simp add: coalesce_new_expected_def cleanup_fields)
      qed
    next
      case nd: False
      let ?w = "set_attr st ''expected'' ?S None"
      note w = override_written [OF wf one, where v = ?S]
      have u: "coalesce_updates st = Inr ?w"
        using ue ne same nd by (simp add: coalesce_updates_def coalesce_new_expected_def)
      have nl: "\<not> last_is_default ?w"
      proof
        assume l: "last_is_default ?w"
        then have "last (entries ?w) \<in> set (entries ?w)"
          and "condition_node (heap ?w ! last (entries ?w)) = None"
          and d: "Some (cv_value (heap ?w ! last (entries ?w))) = default_status ?w"
          by (simp_all add: last_is_default_def)
        then have "cv_value (heap ?w ! last (entries ?w)) = ?S"
          using w(3) by blast
        with d nd show False
          by (simp add: set_attr_frame)
      qed
      have cw: "cleanup ?w = ?w"
        using nl w(2) by (rule cleanup_unchanged)
      have 1: "coalesce_expected st = Inr ?w"
        using coalesce_expected_cleanup_eq [OF u] cw by simp
      from w(1) obtain a where a: "find (\<lambda>a. condition_node (heap ?w ! a) = None) (entries ?w) = Some a"
        "cv_value (heap ?w ! a) = ?S"
        by blast
      have sw: "set_attr ?w ''expected'' ?S None = ?w"
        using a by (rule set_attr_unconditional_same)
      have "coalesce_updates ?w = Inr ?w"
        using ue ne same nd sw
        by (simp add: coalesce_updates_def coalesce_new_expected_def set_attr_frame)
      then have "coalesce_expected ?w = Inr ?w"
        using coalesce_expected_cleanup_eq cw by simp
      with 1 show ?thesis by blast
    qed
  qed
qed

subsection \<open>Evaluation of the examples\<close>

lemma changed_coalesce: "coalesce_expected changed_node = Inr changed_after"
  by (simp add: changed_node_def changed_after_def coalesce_eval)

lemma fixed_coalesce: "coalesce_expected fixed_node = Inr fixed_after"
  by (simp add: fixed_node_def fixed_after_def coalesce_eval)

lemma new_coalesce: "coalesce_expected new_node = Inr new_node_after"
  by (simp add: new_node_def new_node_after_def coalesce_eval)

lemma untested_coalesce: "coalesce_expected untested_node = Inr untested_after"
  by (simp add: untested_node_def untested_after_def coalesce_eval)

lemma usual_coalesce: "coalesce_expected usual_node = Inr usual_node"
  by (simp add: usual_node_def coalesce_eval group_single)

lemma settled_examples: "settled changed_node" "settled fixed_node" "settled new_node"
  "settled untested_node" "settled usual_node"
  by (simp_all add: settled_def wf_node_def entries_def all_same_def
      changed_node_def fixed_node_def new_node_def untested_node_def usual_node_def)

lemma not_redundant_examples:
  "not_redundant (unconditional_status changed_node) changed_node"
  "not_redundant (unconditional_status changed_after) changed_node"
  "not_redundant (unconditional_status fixed_node) fixed_node"
  "not_redundant (unconditional_status fixed_after) fixed_node"
  "not_redundant (unconditional_status new_node) new_node"
  "not_redundant (unconditional_status new_node_after) new_node"
  "not_redundant (unconditional_status untested_node) untested_node"
  "not_redundant (unconditional_status untested_after) untested_node"
  "not_redundant (unconditional_status usual_node) usual_node"
  by (simp_all add: not_redundant_def unconditional_status_def get_attr_def
      changed_node_def changed_after_def fixed_node_def fixed_after_def new_node_def new_node_after_def
      untested_node_def untested_after_def usual_node_def)

lemma pool_quiet_examples:
  "pool_quiet (unconditional_status changed_node) changed_node"
  "pool_quiet (unconditional_status changed_after) changed_node"
  "pool_quiet (unconditional_status fixed_node) fixed_node"
  "pool_quiet (unconditional_status fixed_after) fixed_node"
  "pool_quiet (unconditional_status new_node) new_node"
  "pool_quiet (unconditional_status new_node_after) new_node"
  "pool_quiet (unconditional_status untested_node) untested_node"
  "pool_quiet (unconditional_status untested_after) untested_node"
  by (simp_all add: pool_quiet_def all_same_def
      changed_node_def fixed_node_def new_node_def untested_node_def)

lemma pool_quiet_usual: "pool_quiet (unconditional_status usual_node) usual_node"
proof -
  have "new_expected usual_node = [\<lparr>run_info = only_os ''mac'', status = ''PASS''\<rparr>]"
    and "unconditional_status usual_node = Some ''PASS''"
    by (simp_all add: usual_node_def unconditional_status_def get_attr_def)
  then show ?thesis
    by (simp add: pool_quiet_def group_single)
qed

text \<open>
  Claim C8, as amended. \<open>coalesce_expected\<close> does not clear the matched results or the
  unplaced evidence, so a second call processes the same evidence again. Take a node with
  settled evidence (no tracked condition has disagreeing results, at most one unconditional
  entry is stored) in which, for the unconditional status, no tracked condition with a
  predicate has results on that status and the unplaced evidence adds no synthesized
  entry. Then the call returns; and when the two conditions also hold for the
  unconditional status after the call, a second call returns the same node.
\<close>

theorem coalesce_idempotent_settled:
  assumes "settled st" and "not_redundant (unconditional_status st) st"
    and "pool_quiet (unconditional_status st) st"
  shows "\<exists>st'. coalesce_expected st = Inr st'
     \<and> (not_redundant (unconditional_status st') st \<and> pool_quiet (unconditional_status st') st
          \<longrightarrow> coalesce_expected st' = Inr st')"
proof (cases "updated_expected st = []")
  case True
  with assms(1,3) show ?thesis
    using idempotent_untracked by blast
next
  case False
  with assms show ?thesis
    by (rule idempotent_tracked)
qed

theorem coalesce_idempotent_settled_witness:
  "settled changed_node \<and> not_redundant (unconditional_status changed_node) changed_node
   \<and> pool_quiet (unconditional_status changed_node) changed_node
   \<and> coalesce_expected changed_node = Inr changed_after
   \<and> not_redundant (unconditional_status changed_after) changed_node
   \<and> pool_quiet (unconditional_status changed_after) changed_node
   \<and> coalesce_expected changed_after = Inr changed_after
   \<and> settled fixed_node \<and> not_redundant (unconditional_status fixed_node) fixed_node
   \<and> pool_quiet (unconditional_status fixed_node) fixed_node
   \<and> coalesce_expected fixed_node = Inr fixed_after
   \<and> not_redundant (unconditional_status fixed_after) fixed_node
   \<and> pool_quiet (unconditional_status fixed_after) fixed_node
   \<and> coalesce_expected fixed_after = Inr fixed_after
   \<and> settled new_node \<and> not_redundant (unconditional_status new_node) new_node
   \<and> pool_quiet (unconditional_status new_node) new_node
   \<and> coalesce_expected new_node = Inr new_node_after
   \<and> not_redundant (unconditional_status new_node_after) new_node
   \<and> pool_quiet (unconditional_status new_node_after) new_node
   \<and> coalesce_expected new_node_after = Inr new_node_after
   \<and> settled untested_node \<and> not_redundant (unconditional_status untested_node) untested_node
   \<and> pool_quiet (unconditional_status untested_node) untested_node
   \<and> coalesce_expected untested_node = Inr untested_after
   \<and> not_redundant (unconditional_status untested_after) untested_node
   \<and> pool_quiet (unconditional_status untested_after) untested_node
   \<and> coalesce_expected untested_after = Inr untested_after
   \<and> settled usual_node \<and> not_redundant (unconditional_status usual_node) usual_node
   \<and> pool_quiet (unconditional_status usual_node) usual_node
   \<and> new_expected usual_node \<noteq> [] \<and> updated_expected usual_node \<noteq> []
   \<and> coalesce_expected usual_node = Inr usual_node"
proof -
  have 1: "coalesce_expected changed_after = Inr changed_after"
    using coalesce_idempotent_settled [OF settled_examples(1) not_redundant_examples(1)
        pool_quiet_examples(1)]
      changed_coalesce not_redundant_examples(2) pool_quiet_examples(2) by auto
  have 2: "coalesce_expected fixed_after = Inr fixed_after"
    using coalesce_idempotent_settled [OF settled_examples(2) not_redundant_examples(3)
        pool_quiet_examples(3)]
      fixed_coalesce not_redundant_examples(4) pool_quiet_examples(4) by auto
  have 3: "coalesce_expected new_node_after = Inr new_node_after"
    using coalesce_idempotent_settled [OF settled_examples(3) not_redundant_examples(5)
        pool_quiet_examples(5)]
      new_coalesce not_redundant_examples(6) pool_quiet_examples(6) by auto
  have 4: "coalesce_expected untested_after = Inr untested_after"
    using coalesce_idempotent_settled [OF settled_examples(4) not_redundant_examples(7)
        pool_quiet_examples(7)]
      untested_coalesce not_redundant_examples(8) pool_quiet_examples(8) by auto
  have 5: "\<exists>st'. coalesce_expected usual_node = Inr st'"
    using coalesce_idempotent_settled [OF settled_examples(5) not_redundant_examples(9)
        pool_quiet_usual]
    by blast
  have 6: "new_expected usual_node \<noteq> []" "updated_expected usual_node \<noteq> []"
    by (simp_all add: usual_node_def)
  show ?thesis
    using 1 2 3 4 5 6 settled_examples not_redundant_examples pool_quiet_examples pool_quiet_usual
      changed_coalesce fixed_coalesce new_coalesce untested_coalesce usual_coalesce
    by simp
qed

text \<open>
  Claim C8 as stated fails, and each condition of the amended claim is needed. On
  \<open>mixed_node\<close> (disagreeing results) the second call moves the same result to the unplaced
  evidence a second time and appends a second entry for it. On \<open>moved_node\<close> (a condition
  with results on the unconditional status) the first call removes the entry and the second
  call fails on removing it again. On \<open>retimed_node\<close> the first call changes the
  unconditional status to \<open>TIMEOUT\<close>, and the second call removes the conditional entry,
  whose results are now on the unconditional status. On \<open>spread_node\<close> (unplaced evidence
  for which the synthesizer adds an entry) every call appends the synthesized entry again.
\<close>

theorem coalesce_not_idempotent_counterexample:
  "coalesce_expected mixed_node = Inr mixed_once
   \<and> coalesce_expected mixed_once = Inr mixed_twice
   \<and> entries mixed_once = [0, 1] \<and> entries mixed_twice = [0, 1, 2]
   \<and> length (new_expected mixed_once) = 1 \<and> length (new_expected mixed_twice) = 2
   \<and> mixed_twice \<noteq> mixed_once
   \<and> coalesce_expected moved_node = Inr moved_node_after
   \<and> coalesce_expected moved_node_after = Inl ValueError
   \<and> coalesce_expected retimed_node = Inr retimed_once
   \<and> coalesce_expected retimed_once = Inr retimed_twice
   \<and> entries retimed_once = [0, 1] \<and> entries retimed_twice = [1]
   \<and> coalesce_expected spread_node = Inr spread_once
   \<and> coalesce_expected spread_once = Inr spread_twice
   \<and> entries spread_once = [0, 1] \<and> entries spread_twice = [0, 1, 2]"
proof -
  have 1: "coalesce_expected mixed_node = Inr mixed_once"
    by (simp add: mixed_node_def mixed_once_def coalesce_eval group_single)
  have 2: "coalesce_expected mixed_once = Inr mixed_twice"
    by (simp add: mixed_node_def mixed_once_def mixed_twice_def coalesce_eval group_twice
        numeral_2_eq_2)
  have 3: "entries mixed_once = [0, 1]" "entries mixed_twice = [0, 1, 2]"
    "length (new_expected mixed_once) = 1" "length (new_expected mixed_twice) = 2"
    by (simp_all add: mixed_once_def mixed_twice_def entries_def)
  from 3(3,4) have 4: "mixed_twice \<noteq> mixed_once"
    by auto
  have 5: "coalesce_expected moved_node = Inr moved_node_after"
    by (simp add: moved_node_def moved_node_after_def coalesce_eval group_single)
  have 6: "coalesce_expected moved_node_after = Inl ValueError"
    by (simp add: moved_node_def moved_node_after_def coalesce_eval)
  have 7: "coalesce_expected retimed_node = Inr retimed_once"
    by (simp add: retimed_node_def retimed_once_def coalesce_eval)
  have 8: "coalesce_expected retimed_once = Inr retimed_twice"
    by (simp add: retimed_node_def retimed_once_def retimed_twice_def coalesce_eval)
  have 9: "entries retimed_once = [0, 1]" "entries retimed_twice = [1]"
    by (simp_all add: retimed_node_def retimed_once_def retimed_twice_def entries_def)
  have 10: "coalesce_expected spread_node = Inr spread_once"
    by (simp add: spread_node_def spread_once_def coalesce_eval group_single)
  have 11: "coalesce_expected spread_once = Inr spread_twice"
    by (simp add: spread_node_def spread_once_def spread_twice_def coalesce_eval group_single
        numeral_2_eq_2)
  have 12: "entries spread_once = [0, 1]" "entries spread_twice = [0, 1, 2]"
    by (simp_all add: spread_node_def spread_once_def spread_twice_def entries_def)
  show ?thesis
    using 1 2 3 4 5 6 7 8 9 10 11 12 by simp
qed

section \<open>Coalescing: what happens to a tracked condition\<close>

lemma tracked_same_address:
  assumes "distinct (map fst ue)" and "e \<in> set ue" and "e' \<in> set ue" and "fst e' = fst e"
  shows "e' = e"
  using assms by (metis distinct_map inj_onD)

lemma coalesce_tracked:
  assumes wf: "wf_node st" and ne: "updated_expected st \<noteq> []"
    and up: "coalesce_updates st = Inr mid"
  shows "length (heap st) \<le> length (heap mid)"
    and "default_status mid = default_status st"
    and "distinct (entries mid)"
    and "filter (\<lambda>b. b < length (heap st)) (entries mid) =
           filter (\<lambda>b. \<not> (\<exists>e \<in> set (updated_expected st). fst e = b
                              \<and> entry_dropped (unconditional_status st) (heap st) e)) (entries st)"
    and "\<And>b. b < length (heap st) \<Longrightarrow> b \<notin> fst ` set (updated_expected st) \<Longrightarrow>
           heap mid ! b = heap st ! b"
    and "\<And>e. e \<in> set (updated_expected st) \<Longrightarrow>
           heap mid ! fst e =
             (if entry_updated (unconditional_status st) (heap st) e
              then (heap st ! fst e)\<lparr>cv_value := status (hd (snd e))\<rparr> else heap st ! fst e)"
proof -
  let ?us = "unconditional_status st"
  let ?ue = "updated_expected st"
  let ?keep = "\<lambda>b. \<not> (\<exists>e \<in> set ?ue. fst e = b \<and> entry_dropped ?us (heap st) e)"
  from up obtain st1 where l: "coalesce_conditions ?us ?ue st = Inr st1"
    and n: "coalesce_new_expected ?us st1 = Inr mid"
    by (rule coalesce_updates_split)
  from wf have d: "distinct (entries st)" and du: "distinct (map fst ?ue)"
    and r: "\<And>b. b \<in> set (entries st) \<Longrightarrow> b < length (heap st)"
    and ru: "\<And>e. e \<in> set ?ue \<Longrightarrow> fst e < length (heap st)"
    by (simp_all add: wf_node_def list_all_iff)
  have len1: "length (heap st1) = length (heap st)"
    using l by (rule coalesce_conditions_heap_length)
  have f1: "updated_expected st1 = ?ue" "default_status st1 = default_status st"
    using coalesce_conditions_frame [OF l] by simp_all
  have e1: "entries st1 = filter ?keep (entries st)"
    using l d by (rule coalesce_conditions_entries)
  from n ne f1(1) obtain news where h2: "heap mid = heap st1 @ news"
    and e2: "entries mid = entries st1 @ [length (heap st1) ..< length (heap st1) + length news]"
    and ds: "default_status mid = default_status st1"
    using coalesce_new_expected_tracked [of ?us st1 mid] by auto
  show "length (heap st) \<le> length (heap mid)"
    using h2 len1 by simp
  show "default_status mid = default_status st"
    using ds f1(2) by simp
  have old: "b < length (heap st)" if "b \<in> set (entries st1)" for b
    using that e1 r by simp
  have ds1: "distinct (entries st1)"
    using e1 d by simp
  have "b \<notin> set [length (heap st1) ..< length (heap st1) + length news]"
    if "b \<in> set (entries st1)" for b
    using old [OF that] by (simp add: len1)
  then show "distinct (entries mid)"
    using ds1 by (auto simp: e2)
  have "filter (\<lambda>b. b < length (heap st)) (entries mid) = entries st1"
    using old by (simp add: e2 len1 filter_id_conv)
  then show "filter (\<lambda>b. b < length (heap st)) (entries mid) = filter ?keep (entries st)"
    using e1 by simp
  show "heap mid ! b = heap st ! b" if "b < length (heap st)" "b \<notin> fst ` set ?ue" for b
    using that coalesce_conditions_heap_other [OF l that(2)] by (simp add: h2 nth_append len1)
  show "heap mid ! fst e =
             (if entry_updated ?us (heap st) e
              then (heap st ! fst e)\<lparr>cv_value := status (hd (snd e))\<rparr> else heap st ! fst e)"
    if "e \<in> set ?ue" for e
    using coalesce_conditions_heap_own [OF l du that ru [OF that]] ru [OF that]
    by (simp add: h2 nth_append len1)
qed

lemma coalesce_tracked_member:
  assumes wf: "wf_node st" and e: "e \<in> set (updated_expected st)"
    and up: "coalesce_updates st = Inr mid"
  shows "(fst e \<in> set (entries mid)) =
           (fst e \<in> set (entries st) \<and> \<not> entry_dropped (unconditional_status st) (heap st) e)"
proof -
  let ?us = "unconditional_status st"
  let ?ue = "updated_expected st"
  from e have ne: "?ue \<noteq> []" by auto
  from wf e have a: "fst e < length (heap st)" and du: "distinct (map fst ?ue)"
    by (simp_all add: wf_node_def list_all_iff)
  have "(fst e \<in> set (entries mid)) = (fst e \<in> set (filter (\<lambda>b. b < length (heap st)) (entries mid)))"
    using a by simp
  also have "\<dots> = (fst e \<in> set (entries st)
       \<and> \<not> (\<exists>e' \<in> set ?ue. fst e' = fst e \<and> entry_dropped ?us (heap st) e'))"
    by (simp add: coalesce_tracked(4) [OF wf ne up])
  also have "(\<exists>e' \<in> set ?ue. fst e' = fst e \<and> entry_dropped ?us (heap st) e')
       = entry_dropped ?us (heap st) e"
    using tracked_same_address [OF du e] e by blast
  finally show ?thesis .
qed

text \<open>
  Claim C1, as amended. Let a tracked condition have matched results that all agree on a
  status \<open>S\<close>, in a node whose stored entries and tracked conditions are different objects,
  and let \<open>coalesce_expected\<close> reach its closing clean-up in the node \<open>mid\<close>. The predicate of
  the condition is unchanged. If the predicate is not \<open>None\<close> and \<open>S\<close> is the unconditional
  status, the entry is removed from the stored attribute. Otherwise its stored status is
  \<open>S\<close> and the entry is stored in \<open>mid\<close> as it was before; the clean-up removes it exactly
  when it is the last stored entry and the default one, which needs its predicate \<open>None\<close>
  and \<open>S\<close> equal to the default status; in every other case it is still stored at the end.
\<close>

theorem coalesce_agreeing_condition:
  assumes "wf_node st" and "e \<in> set (updated_expected st)"
    and "snd e \<noteq> []" and "all_same (snd e)"
    and "coalesce_updates st = Inr mid"
  shows "\<exists>st'. coalesce_expected st = Inr st'
     \<and> condition_node (heap st' ! fst e) = condition_node (heap st ! fst e)
     \<and> (if condition_node (heap st ! fst e) \<noteq> None
            \<and> Some (status (hd (snd e))) = unconditional_status st
         then fst e \<notin> set (entries mid) \<and> fst e \<notin> set (entries st')
         else cv_value (heap st' ! fst e) = status (hd (snd e))
            \<and> (fst e \<in> set (entries mid)) = (fst e \<in> set (entries st))
            \<and> (fst e \<in> set (entries st'))
                = (fst e \<in> set (entries st) \<and> \<not> (last_is_default mid \<and> last (entries mid) = fst e))
            \<and> (last_is_default mid \<and> last (entries mid) = fst e \<longrightarrow>
                  condition_node (heap st ! fst e) = None
                  \<and> Some (status (hd (snd e))) = default_status st))"
proof -
  let ?us = "unconditional_status st"
  let ?a = "fst e"
  let ?S = "status (hd (snd e))"
  from assms(2) have ne: "updated_expected st \<noteq> []" by auto
  note t = coalesce_tracked [OF assms(1) ne assms(5)]
  have hm: "heap mid ! ?a =
      (if entry_updated ?us (heap st) e then (heap st ! ?a)\<lparr>cv_value := ?S\<rparr> else heap st ! ?a)"
    using t(6) [OF assms(2)] .
  have mm: "(?a \<in> set (entries mid)) = (?a \<in> set (entries st) \<and> \<not> entry_dropped ?us (heap st) e)"
    using assms(1,2,5) by (rule coalesce_tracked_member)
  obtain st' where f: "coalesce_expected st = Inr st'" "heap st' = heap mid"
    "entries st' = (if last_is_default mid then remove1 (last (entries mid)) (entries mid)
                        else entries mid)"
    using assms(5) by (rule coalesce_final)
  have fm: "(?a \<in> set (entries st'))
      = (?a \<in> set (entries mid) \<and> \<not> (last_is_default mid \<and> last (entries mid) = ?a))"
    unfolding f(3) using t(3) by (rule final_member)
  have cn: "condition_node (heap st' ! ?a) = condition_node (heap st ! ?a)"
    by (simp add: f(2) hm)
  show ?thesis
  proof (cases "condition_node (heap st ! ?a) \<noteq> None \<and> Some ?S = ?us")
    case True
    then have "entry_dropped ?us (heap st) e"
      using agreeing_branches(1) [OF assms(3,4)] by simp
    then have "?a \<notin> set (entries mid)" "?a \<notin> set (entries st')"
      using mm fm by simp_all
    with f(1) cn True show ?thesis by simp
  next
    case False
    then have nd: "\<not> entry_dropped ?us (heap st) e" and u: "entry_updated ?us (heap st) e"
      using agreeing_branches [OF assms(3,4)] by simp_all
    have v: "heap st' ! ?a = (heap st ! ?a)\<lparr>cv_value := ?S\<rparr>"
      using hm u f(2) by simp
    have l: "condition_node (heap st ! ?a) = None \<and> Some ?S = default_status st"
      if "last_is_default mid \<and> last (entries mid) = ?a"
    proof -
      from that have "condition_node (heap mid ! ?a) = None"
        and "Some (cv_value (heap mid ! ?a)) = default_status mid"
        by (auto simp: last_is_default_def)
      then show ?thesis
        using hm u t(2) by simp
    qed
    have p1: "cv_value (heap st' ! ?a) = ?S"
      using v by simp
    have p2: "(?a \<in> set (entries mid)) = (?a \<in> set (entries st))"
      using mm nd by simp
    have p3: "(?a \<in> set (entries st'))
        = (?a \<in> set (entries st) \<and> \<not> (last_is_default mid \<and> last (entries mid) = ?a))"
      using fm p2 by simp
    have p4: "last_is_default mid \<and> last (entries mid) = ?a \<longrightarrow>
        condition_node (heap st ! ?a) = None \<and> Some ?S = default_status st"
      using l by blast
    from False have "\<not> (condition_node (heap st ! ?a) \<noteq> None \<and> Some ?S = ?us)" .
    then show ?thesis
      using f(1) cn p1 p2 p3 p4 by (intro exI [of _ st']) (simp only: if_not_P simp_thms)
  qed
qed

theorem coalesce_agreeing_condition_witness:
  "wf_node partly_run_node
   \<and> (0, [\<lparr>run_info = only_os ''linux'', status = ''PASS''\<rparr>]) \<in> set (updated_expected partly_run_node)
   \<and> all_same [\<lparr>run_info = only_os ''linux'', status = ''PASS''\<rparr>]
   \<and> condition_node (heap partly_run_node ! 0) \<noteq> None
   \<and> Some ''PASS'' = unconditional_status partly_run_node
   \<and> (\<exists>st'. coalesce_expected partly_run_node = Inr st' \<and> 0 \<notin> set (entries st'))
   \<and> wf_node changed_node
   \<and> (0, [\<lparr>run_info = only_os ''linux'', status = ''TIMEOUT''\<rparr>]) \<in> set (updated_expected changed_node)
   \<and> Some ''TIMEOUT'' \<noteq> unconditional_status changed_node
   \<and> (\<exists>st'. coalesce_expected changed_node = Inr st' \<and> cv_value (heap st' ! 0) = ''TIMEOUT''
          \<and> 0 \<in> set (entries st'))"
proof -
  let ?e = "(0::nat, [\<lparr>run_info = only_os ''linux'', status = ''PASS''\<rparr>])"
  let ?f = "(0::nat, [\<lparr>run_info = only_os ''linux'', status = ''TIMEOUT''\<rparr>])"
  have e: "?e \<in> set (updated_expected partly_run_node)" "snd ?e \<noteq> []" "all_same (snd ?e)"
    by (simp_all add: partly_run_node_def all_same_def)
  have f: "?f \<in> set (updated_expected changed_node)" "snd ?f \<noteq> []" "all_same (snd ?f)"
    by (simp_all add: changed_node_def all_same_def)
  have c1: "condition_node (heap partly_run_node ! 0) \<noteq> None"
    "Some ''PASS'' = unconditional_status partly_run_node"
    by (simp_all add: partly_run_node_def unconditional_status_def get_attr_def)
  have c2: "Some ''TIMEOUT'' \<noteq> unconditional_status changed_node"
    "entries changed_node = [0]"
    "\<not> last_is_default (changed_node\<lparr>heap := [\<lparr>condition_node = Some (os_is ''linux''), cv_value = ''TIMEOUT''\<rparr>]\<rparr>)"
    by (simp_all add: changed_node_def unconditional_status_def get_attr_def entries_def last_is_default_def)
  have "\<exists>st'. coalesce_expected partly_run_node = Inr st' \<and> 0 \<notin> set (entries st')"
    using coalesce_agreeing_condition [OF wf_examples(1) e partly_run_updates] c1 by auto
  moreover have "\<exists>st'. coalesce_expected changed_node = Inr st' \<and> cv_value (heap st' ! 0) = ''TIMEOUT''
          \<and> 0 \<in> set (entries st')"
    using coalesce_agreeing_condition [OF wf_examples(2) f changed_updates] c2 by auto
  ultimately show ?thesis
    using wf_examples e f c1 c2 by simp
qed

text \<open>
  Claim C1 as stated fails for \<open>fixed_node\<close>: its unconditional entry \<open>FAIL\<close> has matched
  results that agree on \<open>PASS\<close>, the default status; the entry is not kept, the stored
  attribute is empty after the call.
\<close>

theorem coalesce_agreeing_condition_counterexample:
  "(0, [\<lparr>run_info = only_os ''linux'', status = ''PASS''\<rparr>]) \<in> set (updated_expected fixed_node)
   \<and> condition_node (heap fixed_node ! 0) = None
   \<and> entries fixed_node = [0]
   \<and> coalesce_expected fixed_node
       = Inr (fixed_node\<lparr>heap := [\<lparr>condition_node = None, cv_value = ''PASS''\<rparr>],
                         data := [''expected'' \<mapsto> []], node_children := []\<rparr>)
   \<and> entries (fixed_node\<lparr>heap := [\<lparr>condition_node = None, cv_value = ''PASS''\<rparr>],
                         data := [''expected'' \<mapsto> []], node_children := []\<rparr>) = []"
  by (simp add: fixed_node_def entries_def coalesce_expected_def drop_default_def
      remove_expected_node_def updates_defs)

text \<open>
  Claim C2, as amended. Let a tracked condition have no matched result, in a node whose
  stored entries and tracked conditions are different objects, and let \<open>coalesce_expected\<close>
  reach its closing clean-up in the node \<open>mid\<close>. The predicate and the status of the
  condition are unchanged, and the entry is stored in \<open>mid\<close> as it was before. The clean-up
  removes it exactly when it is the last stored entry and the default one (its predicate is
  \<open>None\<close> and its status is the default status); otherwise it is still stored at the end.
  The entries that were stored before the call and are stored after it keep their order;
  their positions change when an earlier entry is removed.
\<close>

theorem coalesce_unmatched_condition:
  assumes "wf_node st" and "e \<in> set (updated_expected st)" and "snd e = []"
    and "coalesce_updates st = Inr mid"
  shows "\<exists>st'. coalesce_expected st = Inr st'
     \<and> heap st' ! fst e = heap st ! fst e
     \<and> (fst e \<in> set (entries mid)) = (fst e \<in> set (entries st))
     \<and> (fst e \<in> set (entries st'))
         = (fst e \<in> set (entries st) \<and> \<not> (last_is_default mid \<and> last (entries mid) = fst e))
     \<and> (last_is_default mid \<and> last (entries mid) = fst e \<longrightarrow>
           condition_node (heap st ! fst e) = None
           \<and> Some (cv_value (heap st ! fst e)) = default_status st)
     \<and> subseq (filter (\<lambda>b. b < length (heap st)) (entries st')) (entries st)"
proof -
  let ?us = "unconditional_status st"
  let ?a = "fst e"
  let ?old = "\<lambda>b. b < length (heap st)"
  from assms(2) have ne: "updated_expected st \<noteq> []" by auto
  note t = coalesce_tracked [OF assms(1) ne assms(4)]
  have hm: "heap mid ! ?a = heap st ! ?a"
    using t(6) [OF assms(2)] unmatched_branches(2) [OF assms(3)] by simp
  have mm: "(?a \<in> set (entries mid)) = (?a \<in> set (entries st))"
    using coalesce_tracked_member [OF assms(1,2,4)] unmatched_branches(1) [OF assms(3)] by simp
  obtain st' where f: "coalesce_expected st = Inr st'" "heap st' = heap mid"
    "entries st' = (if last_is_default mid then remove1 (last (entries mid)) (entries mid)
                        else entries mid)"
    using assms(4) by (rule coalesce_final)
  have fm: "(?a \<in> set (entries st'))
      = (?a \<in> set (entries mid) \<and> \<not> (last_is_default mid \<and> last (entries mid) = ?a))"
    unfolding f(3) using t(3) by (rule final_member)
  have l: "condition_node (heap st ! ?a) = None \<and> Some (cv_value (heap st ! ?a)) = default_status st"
    if "last_is_default mid \<and> last (entries mid) = ?a"
  proof -
    from that have "condition_node (heap mid ! ?a) = None"
      and "Some (cv_value (heap mid ! ?a)) = default_status mid"
      by (auto simp: last_is_default_def)
    then show ?thesis
      using hm t(2) by simp
  qed
  have s1: "subseq (filter ?old (entries mid)) (entries st)"
    by (simp add: t(4))
  have "subseq (filter ?old (entries st')) (filter ?old (entries mid))"
    by (simp add: f(3) filter_remove1 subseq_remove1)
  then have s2: "subseq (filter ?old (entries st')) (entries st)"
    using s1 by (rule subseq_order.trans)
  have p1: "heap st' ! ?a = heap st ! ?a"
    using f(2) hm by simp
  have p3: "(?a \<in> set (entries st'))
      = (?a \<in> set (entries st) \<and> \<not> (last_is_default mid \<and> last (entries mid) = ?a))"
    using fm mm by simp
  have p4: "last_is_default mid \<and> last (entries mid) = ?a \<longrightarrow>
      condition_node (heap st ! ?a) = None \<and> Some (cv_value (heap st ! ?a)) = default_status st"
    using l by blast
  show ?thesis
    using f(1) p1 mm p3 p4 s2 by (intro exI [of _ st']) (simp only: simp_thms)
qed

theorem coalesce_unmatched_condition_witness:
  "wf_node partly_run_node
   \<and> (1, []) \<in> set (updated_expected partly_run_node)
   \<and> (\<exists>st'. coalesce_expected partly_run_node = Inr st'
         \<and> heap st' ! 1 = \<lparr>condition_node = Some (os_is ''mac''), cv_value = ''TIMEOUT''\<rparr>
         \<and> 1 \<in> set (entries st')
         \<and> subseq (filter (\<lambda>b. b < 3) (entries st')) [0, 1, 2])"
proof -
  let ?e = "(1::nat, [] :: Result list)"
  let ?mid = "partly_run_node\<lparr>data := [''expected'' \<mapsto> [1, 2]]\<rparr>"
  have e: "?e \<in> set (updated_expected partly_run_node)" "snd ?e = []"
    by (simp_all add: partly_run_node_def)
  have c: "heap partly_run_node ! 1 = \<lparr>condition_node = Some (os_is ''mac''), cv_value = ''TIMEOUT''\<rparr>"
    "entries partly_run_node = [0, 1, 2]" "length (heap partly_run_node) = 3"
    "last (entries ?mid) = 2"
    by (simp_all add: partly_run_node_def entries_def)
  have "\<exists>st'. coalesce_expected partly_run_node = Inr st'
         \<and> heap st' ! 1 = \<lparr>condition_node = Some (os_is ''mac''), cv_value = ''TIMEOUT''\<rparr>
         \<and> 1 \<in> set (entries st')
         \<and> subseq (filter (\<lambda>b. b < 3) (entries st')) [0, 1, 2]"
    using coalesce_unmatched_condition [OF wf_examples(1) e partly_run_updates] c by auto
  then show ?thesis
    using wf_examples(1) e(1) by simp
qed

text \<open>
  Claim C2 as stated fails for \<open>partly_run_node\<close>: the entries 1 and 2 have no matched
  result; after the call entry 2, the unconditional \<open>PASS\<close>, is not stored any more, and
  entry 1 has moved from position 1 to position 0.
\<close>

theorem coalesce_unmatched_condition_counterexample:
  "(1, []) \<in> set (updated_expected partly_run_node)
   \<and> (2, []) \<in> set (updated_expected partly_run_node)
   \<and> entries partly_run_node = [0, 1, 2]
   \<and> coalesce_expected partly_run_node = Inr (partly_run_node\<lparr>data := [''expected'' \<mapsto> [1]]\<rparr>)
   \<and> entries (partly_run_node\<lparr>data := [''expected'' \<mapsto> [1]]\<rparr>) = [1]"
  by (simp add: partly_run_node_def entries_def coalesce_expected_def drop_default_def
      remove_expected_node_def updates_defs)

end
